theory Spec2Isabelle
  imports Complex_Main "HOL-Library.Sublist" "HOL-Library.Char_ord"
begin

section \<open>The scene graph the placer writes to\<close>

text \<open>
  \<^verbatim>\<open>dynamic_shop_placer_mod.py\<close> authors a USD stage through the \<^verbatim>\<open>pxr\<close> bindings. The
  stage is modelled as the scene description of one layer: a partial map from prim paths
  to prims. A path is the list of its components, so \<^verbatim>\<open>/World/Shelf\<close> is
  \<open>[''World'', ''Shelf'']\<close>; the shelf level, the category and the product id of a catalog
  entry are each one component.

  A prim carries what the placer reads or writes: its type name, its reference and payload
  lists, its transform-op attributes and the token array \<^verbatim>\<open>xformOpOrder\<close>. As in
  \<^verbatim>\<open>UsdGeomXformable\<close>, the "reset transform stack" flag is not a field of its own: it is the
  token \<^verbatim>\<open>!resetXformStack!\<close> inside \<^verbatim>\<open>xformOpOrder\<close>.
\<close>

type_synonym path = "string list"

type_synonym vec3 = "real \<times> real \<times> real"

datatype xop = OpTranslate | OpScale | OpRotateZYX | OpOrient | OpOther string

datatype token = ResetXformStack | Op xop

datatype gfval = Vec3d vec3 | Vec3f vec3 | Quatf real vec3

record prim =
  typeName :: string
  references :: "(string \<times> path) list"
  payloads :: "string list"
  xformOps :: "xop \<rightharpoonup> gfval option"
  xformOpOrder :: "token list"

type_synonym stage = "path \<rightharpoonup> prim"

text \<open>The Python exceptions of the model; \<open>TfError\<close> is a USD coding error as Python sees it.\<close>

datatype exn =
  KeyError string | TfError string | ValueError string | AttributeError string
  | TypeError string

subsection \<open>Catalog entries\<close>

text \<open>
  One value of \<^verbatim>\<open>PRODUCT_DATA\<close>: a dict read through the keys \<^verbatim>\<open>shelf\<close>,
  \<^verbatim>\<open>category\<close>, \<^verbatim>\<open>asset\<close>, \<^verbatim>\<open>translate\<close>, \<^verbatim>\<open>scale\<close>, \<^verbatim>\<open>rotate\<close> and \<^verbatim>\<open>orient\<close>. A key
  that is absent is \<open>None\<close>; a key that is present holds a value of the expected shape.
  Numbers are real numbers: the rounding of Python floats and of \<^verbatim>\<open>Gf.Vec3f\<close> is left out.
\<close>

record entry =
  shelf :: "string option"
  category :: "string option"
  asset :: "string option"
  translate :: "vec3 option"
  scale :: "vec3 option"
  rotate_key :: "vec3 option"
  orient :: "(real \<times> real \<times> real \<times> real) option"

definition get_shelf :: "entry \<Rightarrow> string" where
  "get_shelf product_data = (case shelf product_data of None \<Rightarrow> ''Items_Lower'' | Some s \<Rightarrow> s)"

definition get_category :: "entry \<Rightarrow> string" where
  "get_category product_data = (case category product_data of None \<Rightarrow> ''Unknown'' | Some c \<Rightarrow> c)"

subsection \<open>The USD calls\<close>

definition shelf_path :: path where
  "shelf_path = [''World'', ''Shelf'']"

definition new_prim :: "string \<Rightarrow> prim" where
  "new_prim ty = \<lparr>typeName = ty, references = [], payloads = [], xformOps = Map.empty,
     xformOpOrder = []\<rparr>"

text \<open>
  \<^verbatim>\<open>stage.DefinePrim(path, typeName)\<close>, also behind \<^verbatim>\<open>UsdGeom.Xform.Define\<close> and
  \<^verbatim>\<open>UsdGeom.Scope.Define\<close>: the prim at the path is created when absent and keeps everything
  it has when present, its type name set when one is given; absent ancestors are created
  without a type.
\<close>

definition defined_prim :: "stage \<Rightarrow> path \<Rightarrow> string \<Rightarrow> prim" where
  "defined_prim st p ty =
     (case st p of None \<Rightarrow> new_prim ty
      | Some pr \<Rightarrow> if ty = [] then pr else pr\<lparr>typeName := ty\<rparr>)"

definition DefinePrim :: "stage \<Rightarrow> path \<Rightarrow> string \<Rightarrow> stage" where
  "DefinePrim st p ty =
     (\<lambda>q. if q = p then Some (defined_prim st p ty)
          else if q \<noteq> [] \<and> strict_prefix q p \<and> st q = None then Some (new_prim [])
          else st q)"

text \<open>
  \<^verbatim>\<open>prim.GetPayloads().AddPayload(asset)\<close> edits a list op at the back of its prepended
  items: an item that is already listed is moved there, not listed twice.
\<close>

definition AddPayload :: "string \<Rightarrow> prim \<Rightarrow> prim" where
  "AddPayload a pr = pr\<lparr>payloads := filter (\<lambda>x. x \<noteq> a) (payloads pr) @ [a]\<rparr>"

definition ClearReferences :: "prim \<Rightarrow> prim" where
  "ClearReferences pr = pr\<lparr>references := []\<rparr>"

definition AddReference :: "string \<times> path \<Rightarrow> prim \<Rightarrow> prim" where
  "AddReference r pr = pr\<lparr>references := filter (\<lambda>x. x \<noteq> r) (references pr) @ [r]\<rparr>"

text \<open>
  \<^verbatim>\<open>UsdGeomXformable\<close>. \<^verbatim>\<open>SetXformOpOrder(ops, resetXformStack=False)\<close> writes the whole
  token array: the names of the ops, after \<^verbatim>\<open>!resetXformStack!\<close> only when the second
  argument is true. \<^verbatim>\<open>ClearXformOpOrder()\<close> is \<^verbatim>\<open>SetXformOpOrder([])\<close>. Neither removes an
  op's attribute. \<^verbatim>\<open>AddXformOp\<close> (behind \<^verbatim>\<open>AddTranslateOp\<close>, \<^verbatim>\<open>AddScaleOp\<close>,
  \<^verbatim>\<open>AddRotateZYXOp\<close>, \<^verbatim>\<open>AddOrientOp\<close>) is a coding error, raised in Python, when the op is
  already in the array; otherwise it creates the attribute when absent and appends the op's
  name. \<^verbatim>\<open>SetResetXformStack(True)\<close> puts the token at the head of the array unless it is
  there; \<^verbatim>\<open>SetResetXformStack(False)\<close> drops everything up to the last such token.
  \<^verbatim>\<open>GetResetXformStack()\<close> looks for the token in the array.
\<close>

definition SetXformOpOrder :: "xop list \<Rightarrow> bool \<Rightarrow> prim \<Rightarrow> prim" where
  "SetXformOpOrder ops resetXformStack pr =
     pr\<lparr>xformOpOrder := (if resetXformStack then [ResetXformStack] else []) @ map Op ops\<rparr>"

definition ClearXformOpOrder :: "prim \<Rightarrow> prim" where
  "ClearXformOpOrder pr = SetXformOpOrder [] False pr"

definition AddXformOp :: "xop \<Rightarrow> prim \<Rightarrow> exn + prim" where
  "AddXformOp opn pr =
     (if Op opn \<in> set (xformOpOrder pr) then Inl (TfError ''already exists in xformOpOrder'')
      else Inr (pr\<lparr>xformOps := (xformOps pr)(opn \<mapsto>
                      (case xformOps pr opn of None \<Rightarrow> None | Some v \<Rightarrow> v)),
                    xformOpOrder := xformOpOrder pr @ [Op opn]\<rparr>))"

definition SetOp :: "xop \<Rightarrow> gfval \<Rightarrow> prim \<Rightarrow> prim" where
  "SetOp opn v pr = pr\<lparr>xformOps := (xformOps pr)(opn \<mapsto> Some v)\<rparr>"

fun after_last_reset :: "token list \<Rightarrow> token list \<Rightarrow> token list" where
  "after_last_reset acc [] = acc"
| "after_last_reset acc (t # ts) =
     (if t = ResetXformStack then after_last_reset [] ts else after_last_reset (acc @ [t]) ts)"

definition GetResetXformStack :: "prim \<Rightarrow> bool" where
  "GetResetXformStack pr = (ResetXformStack \<in> set (xformOpOrder pr))"

definition SetResetXformStack :: "bool \<Rightarrow> prim \<Rightarrow> prim" where
  "SetResetXformStack resetXformStack pr =
     (if resetXformStack then
        (if ResetXformStack \<in> set (xformOpOrder pr) then pr
         else pr\<lparr>xformOpOrder := ResetXformStack # xformOpOrder pr\<rparr>)
      else
        (if ResetXformStack \<in> set (xformOpOrder pr)
         then pr\<lparr>xformOpOrder := after_last_reset [] (xformOpOrder pr)\<rparr>
         else pr))"

section \<open>Placing one product\<close>

definition product_path :: "string \<Rightarrow> entry \<Rightarrow> path" where
  "product_path product_id product_data =
     shelf_path @ [get_shelf product_data, get_category product_data, product_id]"

text \<open>
  Lines 191 to 214 of \<^verbatim>\<open>place_product\<close>, on the prim that \<^verbatim>\<open>product_prim\<close> is a handle of.
  An exception leaves what was authored before it.
\<close>

definition place_product_ops :: "entry \<Rightarrow> prim \<Rightarrow> exn option \<times> prim" where
  "place_product_ops product_data product_prim =
     (case asset product_data of
        None \<Rightarrow> (Some (KeyError ''asset''), product_prim)
      | Some a \<Rightarrow>
     (let xform = ClearXformOpOrder (AddPayload a product_prim) in
     (case AddXformOp OpTranslate xform of
        Inl e \<Rightarrow> (Some e, xform)
      | Inr xform \<Rightarrow>
     (case translate product_data of
        None \<Rightarrow> (Some (KeyError ''translate''), xform)
      | Some t \<Rightarrow>
     (let xform = SetOp OpTranslate (Vec3d t) xform in
     (case AddXformOp OpScale xform of
        Inl e \<Rightarrow> (Some e, xform)
      | Inr xform \<Rightarrow>
     (case scale product_data of
        None \<Rightarrow> (Some (KeyError ''scale''), xform)
      | Some s \<Rightarrow>
     (let xform = SetOp OpScale (Vec3f s) xform in
     (case rotate_key product_data of
        Some r \<Rightarrow>
          (case AddXformOp OpRotateZYX xform of
             Inl e \<Rightarrow> (Some e, xform)
           | Inr xform \<Rightarrow>
               (None, SetXformOpOrder [OpTranslate, OpRotateZYX, OpScale] False
                        (SetOp OpRotateZYX (Vec3f r) xform)))
      | None \<Rightarrow>
          (case orient product_data of
             Some (q0, q1, q2, q3) \<Rightarrow>
               (case AddXformOp OpOrient xform of
                  Inl e \<Rightarrow> (Some e, xform)
                | Inr xform \<Rightarrow>
                    (None, SetXformOpOrder [OpTranslate, OpOrient, OpScale] False
                             (SetOp OpOrient (Quatf q0 (q1, q2, q3)) xform)))
           | None \<Rightarrow> (None, SetXformOpOrder [OpTranslate, OpScale] False xform)))))))))))"

text \<open>
  \<^verbatim>\<open>place_product\<close>: the result is the exception raised, if any (\<open>None\<close> is the source's
  \<^verbatim>\<open>return True\<close>), and the stage as it is left.
\<close>

definition place_product :: "stage \<Rightarrow> string \<Rightarrow> entry \<Rightarrow> exn option \<times> stage" where
  "place_product st product_id product_data =
     (let p = product_path product_id product_data;
          st1 = DefinePrim st p [];
          (r, product_prim) = place_product_ops product_data (defined_prim st p [])
      in (r, st1(p \<mapsto> product_prim)))"

section \<open>Configuration, return values and printed lines\<close>

text \<open>The user flags at the top of the module, as one parameter.\<close>

record config =
  use_current_scene :: bool
  APPLY_SHELF_WORLD_XFORM :: bool
  SHELF_WORLD_TRANSLATE :: vec3
  SHELF_WORLD_ROTATE_ZYX_DEG :: vec3
  SHELF_WORLD_XFORM_MODE :: string

text \<open>
  The methods return a boolean or let an exception through, and tell failures apart only
  by what they print. \<open>msg\<close> has one constructor for each printed line that reports a
  failure or a count.
\<close>

datatype ret = Returned bool | Raised exn

datatype msg =
    NoStageOpen \<comment> \<open>\<^verbatim>\<open>ERROR: No stage open in the GUI.\<close>\<close>
  | FailedToLoad \<comment> \<open>\<^verbatim>\<open>Failed to load empty shop from: ...\<close>\<close>
  | CannotApplyWorldTransform
      \<comment> \<open>\<^verbatim>\<open>ERROR: Cannot apply world transform: /World/Shelf does not exist.\<close>\<close>
  | ShelfDoesNotExist \<comment> \<open>\<^verbatim>\<open>ERROR: /World/Shelf does NOT exist!\<close>\<close>
  | ErrorPlacing string exn \<comment> \<open>\<^verbatim>\<open>Error placing {pid}: {e}\<close>\<close>
  | Placed nat nat \<comment> \<open>\<^verbatim>\<open>Placed {success_count}/{len(randomized_product_data)} products\<close>\<close>

text \<open>
  \<^verbatim>\<open>str.lower()\<close> on ASCII text: a capital letter differs from its small letter in the bit
  of value 32.
\<close>

definition lower_char :: "char \<Rightarrow> char" where
  "lower_char c =
     (if CHR ''A'' \<le> c \<and> c \<le> CHR ''Z''
      then (case c of Char b0 b1 b2 b3 b4 b5 b6 b7 \<Rightarrow> Char b0 b1 b2 b3 b4 True b6 b7)
      else c)"

definition lower :: "string \<Rightarrow> string" where
  "lower s = map lower_char s"

section \<open>The shelf: world transform, reference, new stage\<close>

text \<open>Lines 82 to 104 of \<^verbatim>\<open>apply_shelf_world_transform_if_enabled\<close>, on the shelf prim.\<close>

definition shelf_world_xform_ops :: "config \<Rightarrow> prim \<Rightarrow> exn option \<times> prim" where
  "shelf_world_xform_ops cfg shelf_prim =
     (let xform = (if lower (SHELF_WORLD_XFORM_MODE cfg) = ''override''
                   then SetResetXformStack True shelf_prim
                   else SetResetXformStack False shelf_prim);
          xform = ClearXformOpOrder xform
      in (case AddXformOp OpTranslate xform of
            Inl e \<Rightarrow> (Some e, xform)
          | Inr xform \<Rightarrow>
         (let xform = SetOp OpTranslate (Vec3d (SHELF_WORLD_TRANSLATE cfg)) xform in
         (case AddXformOp OpRotateZYX xform of
            Inl e \<Rightarrow> (Some e, xform)
          | Inr xform \<Rightarrow>
              (None, SetXformOpOrder [OpTranslate, OpRotateZYX] False
                       (SetOp OpRotateZYX (Vec3f (SHELF_WORLD_ROTATE_ZYX_DEG cfg)) xform))))))"

definition apply_shelf_world_transform_if_enabled ::
    "config \<Rightarrow> stage \<Rightarrow> ret \<times> msg list \<times> stage" where
  "apply_shelf_world_transform_if_enabled cfg st =
     (if \<not> APPLY_SHELF_WORLD_XFORM cfg then (Returned True, [], st)
      else (case st shelf_path of
              None \<Rightarrow> (Returned False, [CannotApplyWorldTransform], st)
            | Some shelf_prim \<Rightarrow>
                (case shelf_world_xform_ops cfg shelf_prim of
                   (Some e, xform) \<Rightarrow> (Raised e, [], st(shelf_path \<mapsto> xform))
                 | (None, xform) \<Rightarrow> (Returned True, [], st(shelf_path \<mapsto> xform)))))"

definition empty_shop_path :: string where
  "empty_shop_path = ''/workspace/isaac_sim_dynamic_store/assets/Shop Minimal Empty.usda''"

definition shelf_reference :: "string \<times> path" where
  "shelf_reference = (empty_shop_path, [''World'', ''Shelf''])"

text \<open>
  \<^verbatim>\<open>add_shelf_to_existing_stage\<close>. The argument is what
  \<^verbatim>\<open>omni.usd.get_context().get_stage()\<close> returns: \<open>None\<close> when no stage is open.
\<close>

definition add_shelf_to_existing_stage ::
    "config \<Rightarrow> stage option \<Rightarrow> ret \<times> msg list \<times> stage option" where
  "add_shelf_to_existing_stage cfg ctx =
     (case ctx of
        None \<Rightarrow> (Returned False, [NoStageOpen], None)
      | Some st \<Rightarrow>
          (let (st, shelf_prim) =
                 (case st shelf_path of
                    None \<Rightarrow> (DefinePrim st shelf_path ''Xform'',
                             defined_prim st shelf_path ''Xform'')
                  | Some pr \<Rightarrow> (st, pr));
               shelf_prim = AddReference shelf_reference (ClearReferences shelf_prim);
               (r, out, st) = apply_shelf_world_transform_if_enabled cfg
                                (st(shelf_path \<mapsto> shelf_prim))
           in (r, out, Some st)))"

text \<open>
  \<^verbatim>\<open>load_empty_shop_sync\<close>. \<open>opened\<close> is what \<^verbatim>\<open>open_stage\<close> gives for the empty-shop
  file: \<open>None\<close> when it returns false, the stage of the file otherwise. A failed open is
  taken to leave the context as it was.
\<close>

definition load_empty_shop_sync ::
    "config \<Rightarrow> stage option \<Rightarrow> stage option \<Rightarrow> ret \<times> msg list \<times> stage option" where
  "load_empty_shop_sync cfg opened ctx =
     (case opened of
        None \<Rightarrow> (Returned False, [FailedToLoad], ctx)
      | Some st \<Rightarrow>
          (let (r, out, st) = apply_shelf_world_transform_if_enabled cfg st
           in (r, out, Some st)))"

section \<open>The product hierarchy\<close>

text \<open>
  \<^verbatim>\<open>PRODUCT_DATA\<close> is a dict from product ids to entries: an association list in
  insertion order, its keys distinct.
\<close>

type_synonym catalog = "(string \<times> entry) list"

text \<open>
  \<^verbatim>\<open>shelf_categories.setdefault(shelf, set()).add(category)\<close>. The set of categories is a
  list without repetition; Python fixes no iteration order for it, and the order chosen
  here is that of first insertion.
\<close>

fun setdefault_add ::
    "(string \<times> string list) list \<Rightarrow> string \<Rightarrow> string \<Rightarrow> (string \<times> string list) list" where
  "setdefault_add [] s c = [(s, [c])]"
| "setdefault_add ((s', cs) # rest) s c =
     (if s' = s then (s', if c \<in> set cs then cs else cs @ [c]) # rest
      else (s', cs) # setdefault_add rest s c)"

definition shelf_categories :: "catalog \<Rightarrow> (string \<times> string list) list" where
  "shelf_categories PRODUCT_DATA =
     fold (\<lambda>(product_id, product_data) acc.
             setdefault_add acc (get_shelf product_data) (get_category product_data))
          PRODUCT_DATA []"

definition define_categories :: "path \<Rightarrow> string list \<Rightarrow> stage \<Rightarrow> stage" where
  "define_categories p categories st =
     fold (\<lambda>category st. DefinePrim st (p @ [category]) ''Scope'') categories st"

definition define_shelves :: "(string \<times> string list) list \<Rightarrow> stage \<Rightarrow> stage" where
  "define_shelves sc st =
     fold (\<lambda>(shelf_level, categories) st.
             define_categories (shelf_path @ [shelf_level]) categories
               (DefinePrim st (shelf_path @ [shelf_level]) ''Scope''))
          sc st"

definition create_product_hierarchy :: "catalog \<Rightarrow> stage \<Rightarrow> ret \<times> msg list \<times> stage" where
  "create_product_hierarchy PRODUCT_DATA st =
     (case st shelf_path of
        None \<Rightarrow> (Returned False, [ShelfDoesNotExist], st)
      | Some shelf_prim \<Rightarrow>
          (Returned True, [], define_shelves (shelf_categories PRODUCT_DATA) st))"

section \<open>Random rotations\<close>

text \<open>
  The module draws from Python's global generator. What the generator yields is a
  parameter: \<open>pick rs i\<close> is the raw outcome of the \<open>i\<close>-th index draw inside
  \<^verbatim>\<open>random.sample\<close>, \<open>bits rs n\<close> the raw outcome of the \<open>n\<close>-th call of
  \<^verbatim>\<open>random.random()\<close>.

  \<^verbatim>\<open>random.random()\<close> returns a multiple of \<open>2\<^sup>-\<^sup>5\<^sup>3\<close> in \<open>[0, 1)\<close>, and
  \<^verbatim>\<open>random.uniform(a, b)\<close> is \<^verbatim>\<open>a + (b - a) * random()\<close>; the arithmetic is that of the
  real numbers. \<^verbatim>\<open>random.sample(population, k)\<close> raises \<^verbatim>\<open>ValueError\<close> unless
  \<open>0 \<le> k \<le> len(population)\<close>; otherwise it draws \<open>k\<close> times a position among the elements
  not drawn so far.
\<close>

record random_source =
  pick :: "nat \<Rightarrow> nat"
  bits :: "nat \<Rightarrow> nat"

definition random :: "random_source \<Rightarrow> nat \<Rightarrow> real" where
  "random rs n = real (bits rs n mod 2 ^ 53) / 2 ^ 53"

definition uniform :: "random_source \<Rightarrow> nat \<Rightarrow> real \<Rightarrow> real \<Rightarrow> real" where
  "uniform rs n a b = a + (b - a) * random rs n"

fun sample_from :: "(nat \<Rightarrow> nat) \<Rightarrow> nat \<Rightarrow> 'a list \<Rightarrow> nat \<Rightarrow> 'a list" where
  "sample_from f i pool 0 = []"
| "sample_from f i pool (Suc k) =
     (if pool = [] then []
      else (let j = f i mod length pool
            in pool ! j # sample_from f (Suc i) (take j pool @ drop (Suc j) pool) k))"

definition sample :: "random_source \<Rightarrow> 'a list \<Rightarrow> int \<Rightarrow> exn + 'a list" where
  "sample rs population k =
     (if k < 0 \<or> int (length population) < k
      then Inl (ValueError ''Sample larger than population or is negative'')
      else Inr (sample_from (pick rs) 0 population (nat k)))"

definition random_rotation :: "random_source \<Rightarrow> nat \<Rightarrow> vec3" where
  "random_rotation rs n =
     (uniform rs n (-180) 180, uniform rs (n + 1) (-180) 180, uniform rs (n + 2) (-180) 180)"

text \<open>\<^verbatim>\<open>d[pid] = pd\<close> on a dict that has the key: the value changes, the position does not.\<close>

fun setitem :: "('k \<times> 'v) list \<Rightarrow> 'k \<Rightarrow> 'v \<Rightarrow> ('k \<times> 'v) list" where
  "setitem [] k v = [(k, v)]"
| "setitem ((k', v') # d) k v = (if k' = k then (k', v) # d else (k', v') # setitem d k v)"

text \<open>
  The loop of \<^verbatim>\<open>randomize_product_rotations\<close>; \<open>n\<close> counts the calls of \<^verbatim>\<open>random.random()\<close>
  made so far.
\<close>

fun randomize_selected ::
    "random_source \<Rightarrow> nat \<Rightarrow> string list \<Rightarrow> catalog \<Rightarrow> exn + catalog" where
  "randomize_selected rs n [] randomized_data = Inr randomized_data"
| "randomize_selected rs n (pid # selected_products) randomized_data =
     (case map_of randomized_data pid of
        None \<Rightarrow> Inl (KeyError pid)
      | Some pd \<Rightarrow>
          randomize_selected rs (n + 3) selected_products
            (setitem randomized_data pid
               (pd\<lparr>rotate_key := Some (random_rotation rs n), orient := None\<rparr>)))"

definition randomize_product_rotations ::
    "random_source \<Rightarrow> catalog \<Rightarrow> int \<Rightarrow> exn + catalog" where
  "randomize_product_rotations rs product_data_dict num_products =
     (let randomized_data = product_data_dict;
          product_ids = map fst randomized_data
      in (case sample rs product_ids (min num_products (int (length product_ids))) of
            Inl e \<Rightarrow> Inl e
          | Inr selected_products \<Rightarrow>
              randomize_selected rs 0 selected_products randomized_data))"

subsection \<open>The same function on an object store\<close>

text \<open>
  \<^verbatim>\<open>randomize_product_rotations\<close> once more, with the dicts as objects, so that what the
  two \<^verbatim>\<open>.copy()\<close> calls do can be stated. The store is the list of the objects allocated so
  far and an address is a position in it; a dict of entries holds the addresses of its
  entry dicts. A copy is a new object at the end of the store; an item assignment or a
  \<^verbatim>\<open>pop\<close> updates the object in place. Reading an address that holds no object of the
  expected kind is a \<^verbatim>\<open>TypeError\<close>.
\<close>

datatype pyobj = DictObj "(string \<times> nat) list" | EntryObj entry

type_synonym store = "pyobj list"

definition deref :: "store \<Rightarrow> nat \<Rightarrow> pyobj option" where
  "deref h a = (if a < length h then Some (h ! a) else None)"

fun randomize_selected_store ::
    "random_source \<Rightarrow> nat \<Rightarrow> string list \<Rightarrow> nat \<Rightarrow> store \<Rightarrow> exn + store" where
  "randomize_selected_store rs n [] randomized_data h = Inr h"
| "randomize_selected_store rs n (pid # selected_products) randomized_data h =
     (case deref h randomized_data of
        Some (DictObj d) \<Rightarrow>
          (case map_of d pid of
             None \<Rightarrow> Inl (KeyError pid)
           | Some a \<Rightarrow>
               (case deref h a of
                  Some (EntryObj e) \<Rightarrow>
                    (let pd = length h;
                         h = h @ [EntryObj e];
                         e = e\<lparr>rotate_key := Some (random_rotation rs n)\<rparr>;
                         h = h[pd := EntryObj e];
                         e = e\<lparr>orient := None\<rparr>;
                         h = h[pd := EntryObj e];
                         h = h[randomized_data := DictObj (setitem d pid pd)]
                     in randomize_selected_store rs (n + 3) selected_products randomized_data h)
                | _ \<Rightarrow> Inl (TypeError ''copy'')))
      | _ \<Rightarrow> Inl (TypeError ''subscript''))"

definition randomize_product_rotations_store ::
    "random_source \<Rightarrow> nat \<Rightarrow> int \<Rightarrow> store \<Rightarrow> exn + nat \<times> store" where
  "randomize_product_rotations_store rs product_data_dict num_products h =
     (case deref h product_data_dict of
        Some (DictObj d) \<Rightarrow>
          (let randomized_data = length h;
               h = h @ [DictObj d];
               product_ids = map fst d
           in (case sample rs product_ids (min num_products (int (length product_ids))) of
                 Inl e \<Rightarrow> Inl e
               | Inr selected_products \<Rightarrow>
                   (case randomize_selected_store rs 0 selected_products randomized_data h of
                      Inl e \<Rightarrow> Inl e
                    | Inr h \<Rightarrow> Inr (randomized_data, h))))
      | _ \<Rightarrow> Inl (TypeError ''copy''))"

section \<open>Placing all products, and the whole setup\<close>

text \<open>
  The loop of \<^verbatim>\<open>place_all_products\<close>: the state is \<^verbatim>\<open>success_count\<close>, the lines printed
  and the stage.
\<close>

fun place_each :: "catalog \<Rightarrow> nat \<times> msg list \<times> stage \<Rightarrow> nat \<times> msg list \<times> stage" where
  "place_each [] acc = acc"
| "place_each ((pid, pdata) # rest) (success_count, out, st) =
     (case place_product st pid pdata of
        (None, st') \<Rightarrow> place_each rest (success_count + 1, out, st')
      | (Some e, st') \<Rightarrow> place_each rest (success_count, out @ [ErrorPlacing pid e], st'))"

definition place_all_products ::
    "random_source \<Rightarrow> catalog \<Rightarrow> stage \<Rightarrow> ret \<times> msg list \<times> stage" where
  "place_all_products rs PRODUCT_DATA st =
     (case randomize_product_rotations rs PRODUCT_DATA 3 of
        Inl e \<Rightarrow> (Raised e, [], st)
      | Inr randomized_product_data \<Rightarrow>
          (let (success_count, out, st) = place_each randomized_product_data (0, [], st)
           in (Returned (success_count > 0),
               out @ [Placed success_count (length randomized_product_data)], st)))"

text \<open>
  \<^verbatim>\<open>setup_scene_sync\<close>; \<open>attach_base\<close> is its first step, the \<^verbatim>\<open>if use_current_scene\<close> of
  lines 258 to 265. A stage method called while \<^verbatim>\<open>self.stage\<close> is \<^verbatim>\<open>None\<close> raises
  \<^verbatim>\<open>AttributeError\<close>.
\<close>

definition attach_base ::
    "config \<Rightarrow> stage option \<Rightarrow> stage option \<Rightarrow> ret \<times> msg list \<times> stage option" where
  "attach_base cfg opened ctx =
     (if use_current_scene cfg then add_shelf_to_existing_stage cfg ctx
      else load_empty_shop_sync cfg opened ctx)"

definition setup_scene_sync ::
    "config \<Rightarrow> stage option \<Rightarrow> random_source \<Rightarrow> catalog \<Rightarrow> stage option
       \<Rightarrow> ret \<times> msg list \<times> stage option" where
  "setup_scene_sync cfg opened rs PRODUCT_DATA ctx =
     (case attach_base cfg opened ctx of
        (Raised e, out, ctx) \<Rightarrow> (Raised e, out, ctx)
      | (Returned False, out, ctx) \<Rightarrow> (Returned False, out, ctx)
      | (Returned True, out, None) \<Rightarrow> (Raised (AttributeError ''GetPrimAtPath''), out, None)
      | (Returned True, out, Some st) \<Rightarrow>
          (case create_product_hierarchy PRODUCT_DATA st of
             (Raised e, out2, st) \<Rightarrow> (Raised e, out @ out2, Some st)
           | (Returned False, out2, st) \<Rightarrow> (Returned False, out @ out2, Some st)
           | (Returned True, out2, st) \<Rightarrow>
               (case place_all_products rs PRODUCT_DATA st of
                  (Raised e, out3, st) \<Rightarrow> (Raised e, out @ out2 @ out3, Some st)
                | (Returned False, out3, st) \<Rightarrow> (Returned False, out @ out2 @ out3, Some st)
                | (Returned True, out3, st) \<Rightarrow> (Returned True, out @ out2 @ out3, Some st))))"

section \<open>Notions used in the statements\<close>

subsection \<open>Group nodes\<close>

text \<open>
  A group node is a prim of type \<^verbatim>\<open>Scope\<close>. \<open>catalog_pairs\<close> are the (shelf level,
  category) pairs of a catalog, \<open>catalog_group_paths\<close> the paths
  \<^verbatim>\<open>/World/Shelf/{shelf}\<close> and \<^verbatim>\<open>/World/Shelf/{shelf}/{category}\<close> of those pairs, and
  \<open>group_paths\<close> the paths in the order in which \<open>define_shelves\<close> defines them. The
  hierarchy of a catalog is built on a stage when the shelf, the group nodes and their
  ancestors are there.
\<close>

definition is_group :: "stage \<Rightarrow> path \<Rightarrow> bool" where
  "is_group st p = (case st p of None \<Rightarrow> False | Some pr \<Rightarrow> typeName pr = ''Scope'')"

definition catalog_pairs :: "catalog \<Rightarrow> (string \<times> string) set" where
  "catalog_pairs PRODUCT_DATA =
     (\<lambda>(product_id, product_data). (get_shelf product_data, get_category product_data))
       ` set PRODUCT_DATA"

definition group_paths :: "(string \<times> string list) list \<Rightarrow> path list" where
  "group_paths sc =
     concat (map (\<lambda>(s, cs). (shelf_path @ [s]) # map (\<lambda>c. shelf_path @ [s, c]) cs) sc)"

definition pairs_of :: "(string \<times> string list) list \<Rightarrow> (string \<times> string) set" where
  "pairs_of sc = {(s, c). \<exists>cs. (s, cs) \<in> set sc \<and> c \<in> set cs}"

definition catalog_group_paths :: "catalog \<Rightarrow> path set" where
  "catalog_group_paths PRODUCT_DATA =
     (\<lambda>(s, c). shelf_path @ [s]) ` catalog_pairs PRODUCT_DATA
     \<union> (\<lambda>(s, c). shelf_path @ [s, c]) ` catalog_pairs PRODUCT_DATA"

definition hierarchy_built :: "catalog \<Rightarrow> stage \<Rightarrow> bool" where
  "hierarchy_built cat st =
     (st shelf_path \<noteq> None
      \<and> (\<forall>q\<in>catalog_group_paths cat. \<exists>pr. st q = Some pr \<and> typeName pr = ''Scope'')
      \<and> (\<forall>q. q \<noteq> [] \<and> (\<exists>p\<in>catalog_group_paths cat. strict_prefix q p) \<longrightarrow> st q \<noteq> None))"

subsection \<open>Entries and their placement\<close>

text \<open>
  An entry can be placed when it has its asset, translation and scale; otherwise
  \<^verbatim>\<open>place_product\<close> raises the \<^verbatim>\<open>KeyError\<close> of the first of these keys that is missing.
  \<open>expected_order\<close> is the op order of a placed entry. Two entries have the same placement
  when they differ at most in \<^verbatim>\<open>rotate\<close> and \<^verbatim>\<open>orient\<close>. \<open>place_stage\<close> is the stage that
  the loop of \<^verbatim>\<open>place_all_products\<close> leaves, \<open>failures\<close> the lines it prints and
  \<open>placed_count\<close> its count; \<open>path_entries\<close> lists the entries under their prim paths.
\<close>

definition placeable :: "entry \<Rightarrow> bool" where
  "placeable e = (asset e \<noteq> None \<and> translate e \<noteq> None \<and> scale e \<noteq> None)"

definition missing_key :: "entry \<Rightarrow> string" where
  "missing_key e =
     (if asset e = None then ''asset'' else if translate e = None then ''translate''
      else ''scale'')"

definition expected_order :: "entry \<Rightarrow> token list" where
  "expected_order e =
     Op OpTranslate #
     (if rotate_key e \<noteq> None then [Op OpRotateZYX]
      else if orient e \<noteq> None then [Op OpOrient] else []) @ [Op OpScale]"

definition same_placement :: "entry \<Rightarrow> entry \<Rightarrow> bool" where
  "same_placement e e' =
     (shelf e' = shelf e \<and> category e' = category e \<and> asset e' = asset e
      \<and> translate e' = translate e \<and> scale e' = scale e)"

definition same_items :: "catalog \<Rightarrow> catalog \<Rightarrow> bool" where
  "same_items d d' = list_all2 (\<lambda>a b. fst b = fst a \<and> same_placement (snd a) (snd b)) d d'"

definition place_stage :: "catalog \<Rightarrow> stage \<Rightarrow> stage" where
  "place_stage items st = fold (\<lambda>(pid, pdata) st. snd (place_product st pid pdata)) items st"

definition failures :: "catalog \<Rightarrow> msg list" where
  "failures items =
     map (\<lambda>(pid, pdata). ErrorPlacing pid (KeyError (missing_key pdata)))
       (filter (\<lambda>(pid, pdata). \<not> placeable pdata) items)"

definition placed_count :: "catalog \<Rightarrow> nat" where
  "placed_count items = length (filter (\<lambda>(pid, pdata). placeable pdata) items)"

definition path_entries :: "catalog \<Rightarrow> (path \<times> entry) list" where
  "path_entries items = map (\<lambda>(pid, e). (product_path pid e, e)) items"

subsection \<open>What a store holds\<close>

text \<open>
  \<open>catalog_at h a cat\<close>: at address \<open>a\<close> the store \<open>h\<close> holds a dict of entries whose
  keys, in order, are those of \<open>cat\<close> and whose values are the addresses of the entries of
  \<open>cat\<close>. \<open>address_of h a pid\<close> is the address that this dict binds \<open>pid\<close> to.
\<close>

definition holds_entry :: "store \<Rightarrow> string \<times> nat \<Rightarrow> string \<times> entry \<Rightarrow> bool" where
  "holds_entry h x y = (fst y = fst x \<and> deref h (snd x) = Some (EntryObj (snd y)))"

definition catalog_at :: "store \<Rightarrow> nat \<Rightarrow> catalog \<Rightarrow> bool" where
  "catalog_at h a cat =
     (\<exists>d. deref h a = Some (DictObj d) \<and> list_all2 (holds_entry h) d cat)"

definition address_of :: "store \<Rightarrow> nat \<Rightarrow> string \<Rightarrow> nat option" where
  "address_of h a pid = (case deref h a of Some (DictObj d) \<Rightarrow> map_of d pid | _ \<Rightarrow> None)"

subsection \<open>The structure of a stage\<close>

text \<open>
  The structure of a prim is its type name, its references, its payloads and its op order.
  \<open>shelf_after\<close> is the shelf prim as \<^verbatim>\<open>add_shelf_to_existing_stage\<close> leaves it.
\<close>

definition shape :: "prim \<Rightarrow> string \<times> (string \<times> path) list \<times> string list \<times> token list" where
  "shape pr = (typeName pr, references pr, payloads pr, xformOpOrder pr)"

definition scene_structure ::
    "stage \<Rightarrow> path \<Rightarrow> (string \<times> (string \<times> path) list \<times> string list \<times> token list) option" where
  "scene_structure st q = map_option shape (st q)"

definition same_structure :: "stage option \<Rightarrow> stage option \<Rightarrow> bool" where
  "same_structure a b = (map_option scene_structure a = map_option scene_structure b)"

definition shelf_after :: "config \<Rightarrow> prim \<Rightarrow> prim" where
  "shelf_after cfg pr =
     (let pr0 = AddReference shelf_reference (ClearReferences pr)
      in if APPLY_SHELF_WORLD_XFORM cfg then snd (shelf_world_xform_ops cfg pr0) else pr0)"

section \<open>Example inputs\<close>

definition chips :: entry where
  "chips = \<lparr>shelf = Some ''Items_Lower'', category = Some ''Snacks'', asset = Some ''chips.usd'',
     translate = Some (1, 0, 0), scale = Some (1, 1, 1), rotate_key = None, orient = None\<rparr>"

definition both :: entry where
  "both = \<lparr>shelf = None, category = None, asset = Some ''can.usd'',
     translate = Some (0, 0, 0), scale = Some (1, 1, 1), rotate_key = Some (0, 90, 0),
     orient = Some (2, 0, 0, 0)\<rparr>"

definition quat_only :: entry where
  "quat_only = both\<lparr>rotate_key := None\<rparr>"

definition no_asset :: entry where
  "no_asset = chips\<lparr>asset := None\<rparr>"

definition override_cfg :: config where
  "override_cfg = \<lparr>use_current_scene = True, APPLY_SHELF_WORLD_XFORM = True,
     SHELF_WORLD_TRANSLATE = (1, 2, 3), SHELF_WORLD_ROTATE_ZYX_DEG = (0, 0, 90),
     SHELF_WORLD_XFORM_MODE = ''override''\<rparr>"

definition stale_shelf :: prim where
  "stale_shelf = \<lparr>typeName = ''Xform'',
     references = [(''old_a.usd'', [''World'', ''Shelf'']), (''old_b.usd'', [''Root''])],
     payloads = [], xformOps = Map.empty, xformOpOrder = []\<rparr>"

definition old_stage :: stage where
  "old_stage = [shelf_path \<mapsto> new_prim ''Xform'',
                shelf_path @ [''Old''] \<mapsto> new_prim ''Scope'',
                shelf_path @ [''Old'', ''Misc''] \<mapsto> new_prim ''Scope'']"

definition fixed_source :: random_source where
  "fixed_source = \<lparr>pick = (\<lambda>i. 0), bits = (\<lambda>n. 0)\<rparr>"

definition other_source :: random_source where
  "other_source = \<lparr>pick = (\<lambda>i. 1), bits = (\<lambda>n. 2 ^ 52)\<rparr>"

definition two_items :: catalog where
  "two_items = [(''A'', no_asset), (''B'', chips)]"

definition two_varied :: catalog where
  "two_varied =
     [(''A'', no_asset\<lparr>rotate_key := Some (-180, -180, -180), orient := None\<rparr>),
      (''B'', chips\<lparr>rotate_key := Some (-180, -180, -180), orient := None\<rparr>)]"

definition four_items :: catalog where
  "four_items = [(''A'', chips), (''B'', chips), (''C'', both), (''D'', quat_only)]"

definition store0 :: store where
  "store0 = [DictObj [(''A'', 1), (''B'', 2)], EntryObj both, EntryObj chips]"

definition catalog0 :: catalog where
  "catalog0 = [(''A'', both), (''B'', chips)]"

section \<open>Facts about the USD calls\<close>

lemmas usd_defs =
  ClearXformOpOrder_def SetXformOpOrder_def AddXformOp_def SetOp_def AddPayload_def

lemma DefinePrim_upd_again:
  "DefinePrim ((DefinePrim st p ty)(p \<mapsto> pr)) p [] = (DefinePrim st p ty)(p \<mapsto> pr)"
  by (rule ext) (simp add: DefinePrim_def defined_prim_def)

lemma defined_prim_upd: "defined_prim (st(p \<mapsto> pr)) p [] = pr"
  by (simp add: defined_prim_def)

section \<open>Placing one product: op order and rotation\<close>

lemma place_product_ops_ok:
  assumes "asset e = Some a" "translate e = Some t" "scale e = Some s"
  shows "fst (place_product_ops e pr) = None"
    and "xformOpOrder (snd (place_product_ops e pr)) =
      Op OpTranslate #
      (if rotate_key e \<noteq> None then [Op OpRotateZYX]
       else if orient e \<noteq> None then [Op OpOrient] else []) @ [Op OpScale]"
  using assms
  by (auto simp: place_product_ops_def usd_defs Let_def split: option.splits prod.splits)

lemma place_product_ops_idem:
  assumes "place_product_ops e pr = (None, pr')"
  shows "place_product_ops e pr' = (None, pr')"
  using assms
  by (auto simp: place_product_ops_def usd_defs Let_def split: option.splits prod.splits)

lemma place_product_ops_euler:
  assumes "asset e = Some a" "translate e = Some t" "scale e = Some s" "rotate_key e = Some r"
  shows "xformOps (snd (place_product_ops e pr)) OpRotateZYX = Some (Some (Vec3f r))"
    and "xformOps (snd (place_product_ops e pr)) OpOrient = xformOps pr OpOrient"
  using assms
  by (auto simp: place_product_ops_def usd_defs Let_def split: option.splits prod.splits)

lemma place_product_ops_quat:
  assumes "asset e = Some a" "translate e = Some t" "scale e = Some s" "rotate_key e = None"
    "orient e = Some (q0, q1, q2, q3)"
  shows "xformOps (snd (place_product_ops e pr)) OpOrient = Some (Some (Quatf q0 (q1, q2, q3)))"
  using assms
  by (auto simp: place_product_ops_def usd_defs Let_def split: option.splits prod.splits)

lemma place_product_again:
  assumes "place_product st pid e = (None, st')"
  shows "place_product st' pid e = (None, st')"
proof -
  let ?p = "product_path pid e"
  obtain r pr where ops: "place_product_ops e (defined_prim st ?p []) = (r, pr)"
    by (cases "place_product_ops e (defined_prim st ?p [])")
  from assms ops have r: "r = None" and st': "st' = (DefinePrim st ?p [])(?p \<mapsto> pr)"
    by (simp_all add: place_product_def Let_def)
  from ops r have "place_product_ops e pr = (None, pr)"
    by (simp add: place_product_ops_idem)
  then show ?thesis
    by (simp add: place_product_def Let_def st' DefinePrim_upd_again defined_prim_upd)
qed

text \<open>
  C1. An entry that has its asset, translation and scale is placed whatever the stage held
  before: the prim at the product's path then has the op order translate, rotation, scale
  when the entry has a rotation (Euler angles or a quaternion) and translate, scale when it
  has none, with nothing of an earlier op order left; placing the same entry again changes
  nothing.
\<close>

theorem place_product_op_order:
  assumes "asset e = Some a" and "translate e = Some t" and "scale e = Some s"
  shows "\<exists>st' pr. place_product st pid e = (None, st')
           \<and> st' (product_path pid e) = Some pr
           \<and> xformOpOrder pr =
               Op OpTranslate #
               (if rotate_key e \<noteq> None then [Op OpRotateZYX]
                else if orient e \<noteq> None then [Op OpOrient] else []) @ [Op OpScale]
           \<and> place_product st' pid e = (None, st')"
proof -
  let ?p = "product_path pid e"
  let ?res = "place_product_ops e (defined_prim st ?p [])"
  let ?st' = "(DefinePrim st ?p [])(?p \<mapsto> snd ?res)"
  have ok: "fst ?res = None"
    using assms by (rule place_product_ops_ok(1))
  then have run: "place_product st pid e = (None, ?st')"
    by (simp add: place_product_def Let_def split_beta)
  have ord: "xformOpOrder (snd ?res) =
      Op OpTranslate #
      (if rotate_key e \<noteq> None then [Op OpRotateZYX]
       else if orient e \<noteq> None then [Op OpOrient] else []) @ [Op OpScale]"
    using assms by (rule place_product_ops_ok(2))
  from run have "place_product ?st' pid e = (None, ?st')"
    by (rule place_product_again)
  with run ord show ?thesis by simp
qed

theorem place_product_op_order_witness:
  "asset chips = Some ''chips.usd'' \<and> translate chips = Some (1, 0, 0)
   \<and> scale chips = Some (1, 1, 1)
   \<and> (\<exists>st' pr. place_product Map.empty ''A'' chips = (None, st')
           \<and> st' (product_path ''A'' chips) = Some pr
           \<and> xformOpOrder pr = [Op OpTranslate, Op OpScale]
           \<and> place_product st' ''A'' chips = (None, st'))"
  using place_product_op_order [of chips "''chips.usd''" "(1, 0, 0)" "(1, 1, 1)" Map.empty "''A''"]
  by (simp add: chips_def)

text \<open>
  C4. For an entry that is placed: Euler angles give a rotate-ZYX op holding those angles,
  in the op order between translate and scale, and the orient attribute is left as it was,
  also when the entry has an \<^verbatim>\<open>orient\<close> key as well; a quaternion without Euler angles
  gives an orient op holding the four numbers as they are.
\<close>

theorem place_product_rotation_selection:
  assumes "asset e = Some a" and "translate e = Some t" and "scale e = Some s"
  shows "\<exists>st' pr. place_product st pid e = (None, st')
           \<and> st' (product_path pid e) = Some pr
           \<and> (\<forall>r. rotate_key e = Some r \<longrightarrow>
                  xformOpOrder pr = [Op OpTranslate, Op OpRotateZYX, Op OpScale]
                  \<and> xformOps pr OpRotateZYX = Some (Some (Vec3f r))
                  \<and> xformOps pr OpOrient =
                      xformOps (defined_prim st (product_path pid e) []) OpOrient)
           \<and> (\<forall>q0 q1 q2 q3. rotate_key e = None \<and> orient e = Some (q0, q1, q2, q3) \<longrightarrow>
                  xformOpOrder pr = [Op OpTranslate, Op OpOrient, Op OpScale]
                  \<and> xformOps pr OpOrient = Some (Some (Quatf q0 (q1, q2, q3))))"
proof -
  let ?p = "product_path pid e"
  let ?res = "place_product_ops e (defined_prim st ?p [])"
  let ?st' = "(DefinePrim st ?p [])(?p \<mapsto> snd ?res)"
  have "fst ?res = None"
    using assms by (rule place_product_ops_ok(1))
  then have run: "place_product st pid e = (None, ?st')"
    by (simp add: place_product_def Let_def split_beta)
  have ord: "xformOpOrder (snd ?res) =
      Op OpTranslate #
      (if rotate_key e \<noteq> None then [Op OpRotateZYX]
       else if orient e \<noteq> None then [Op OpOrient] else []) @ [Op OpScale]"
    using assms by (rule place_product_ops_ok(2))
  have euler: "\<forall>r. rotate_key e = Some r \<longrightarrow>
                  xformOpOrder (snd ?res) = [Op OpTranslate, Op OpRotateZYX, Op OpScale]
                  \<and> xformOps (snd ?res) OpRotateZYX = Some (Some (Vec3f r))
                  \<and> xformOps (snd ?res) OpOrient = xformOps (defined_prim st ?p []) OpOrient"
    using ord place_product_ops_euler [OF assms] by simp
  have quat: "\<forall>q0 q1 q2 q3. rotate_key e = None \<and> orient e = Some (q0, q1, q2, q3) \<longrightarrow>
                  xformOpOrder (snd ?res) = [Op OpTranslate, Op OpOrient, Op OpScale]
                  \<and> xformOps (snd ?res) OpOrient = Some (Some (Quatf q0 (q1, q2, q3)))"
    using ord place_product_ops_quat [OF assms] by simp
  from run euler quat show ?thesis by simp
qed

theorem place_product_rotation_selection_witness:
  "(\<exists>st' pr. place_product Map.empty ''B'' both = (None, st')
      \<and> st' (product_path ''B'' both) = Some pr
      \<and> xformOpOrder pr = [Op OpTranslate, Op OpRotateZYX, Op OpScale]
      \<and> xformOps pr OpRotateZYX = Some (Some (Vec3f (0, 90, 0)))
      \<and> xformOps pr OpOrient = None)
   \<and> (\<exists>st' pr. place_product Map.empty ''B'' quat_only = (None, st')
      \<and> st' (product_path ''B'' quat_only) = Some pr
      \<and> xformOpOrder pr = [Op OpTranslate, Op OpOrient, Op OpScale]
      \<and> xformOps pr OpOrient = Some (Some (Quatf 2 (0, 0, 0))))"
  using place_product_rotation_selection
          [of both "''can.usd''" "(0, 0, 0)" "(1, 1, 1)" Map.empty "''B''"]
        place_product_rotation_selection
          [of quat_only "''can.usd''" "(0, 0, 0)" "(1, 1, 1)" Map.empty "''B''"]
  by (simp add: both_def quat_only_def defined_prim_def new_prim_def)

section \<open>The shelf reference and its world transform\<close>

lemma shelf_world_xform_ops_result:
  "\<exists>pr'. shelf_world_xform_ops cfg pr = (None, pr')
     \<and> xformOpOrder pr' = [Op OpTranslate, Op OpRotateZYX]
     \<and> \<not> GetResetXformStack pr'
     \<and> xformOps pr' OpTranslate = Some (Some (Vec3d (SHELF_WORLD_TRANSLATE cfg)))
     \<and> xformOps pr' OpRotateZYX = Some (Some (Vec3f (SHELF_WORLD_ROTATE_ZYX_DEG cfg)))
     \<and> references pr' = references pr \<and> typeName pr' = typeName pr
     \<and> payloads pr' = payloads pr"
  by (simp add: shelf_world_xform_ops_def usd_defs Let_def GetResetXformStack_def
      SetResetXformStack_def)

lemma shelf_world_xform_ops_again:
  assumes "shelf_world_xform_ops cfg pr = (r, pr')" and "references pr = [x]"
  shows "shelf_world_xform_ops cfg (AddReference x (ClearReferences pr')) = (None, pr')"
  using assms
  by (auto simp: shelf_world_xform_ops_def usd_defs Let_def SetResetXformStack_def
      AddReference_def ClearReferences_def)

lemma AddReference_again:
  "references pr = [x] \<Longrightarrow> AddReference x (ClearReferences pr) = pr"
  by (simp add: AddReference_def ClearReferences_def)

lemma apply_shelf_at:
  "apply_shelf_world_transform_if_enabled cfg (st(shelf_path \<mapsto> pr)) =
     (Returned True, [],
      st(shelf_path \<mapsto>
           (if APPLY_SHELF_WORLD_XFORM cfg then snd (shelf_world_xform_ops cfg pr) else pr)))"
  using shelf_world_xform_ops_result [of cfg pr]
  by (auto simp: apply_shelf_world_transform_if_enabled_def)

lemma add_shelf_Some:
  "add_shelf_to_existing_stage cfg (Some st) =
     (let pr = AddReference shelf_reference (ClearReferences
                 (case st shelf_path of None \<Rightarrow> new_prim ''Xform'' | Some pr \<Rightarrow> pr));
          st1 = (case st shelf_path of
                   None \<Rightarrow> DefinePrim st shelf_path ''Xform'' | Some pr \<Rightarrow> st)
      in (Returned True, [],
          Some (st1(shelf_path \<mapsto>
             (if APPLY_SHELF_WORLD_XFORM cfg then snd (shelf_world_xform_ops cfg pr) else pr)))))"
  by (simp add: add_shelf_to_existing_stage_def apply_shelf_at Let_def defined_prim_def
      split: option.splits)

text \<open>
  C6. Without an open stage \<^verbatim>\<open>add_shelf_to_existing_stage\<close> returns false after printing
  that no stage is open. With one, whatever it holds, it returns true, a prim stands at
  \<^verbatim>\<open>/World/Shelf\<close>, the reference to the shelf of the empty-shop file is the only reference
  on it, and running it again on the result gives the same stage.
\<close>

theorem add_shelf_single_reference:
  "add_shelf_to_existing_stage cfg None = (Returned False, [NoStageOpen], None)
   \<and> (\<exists>st' pr. add_shelf_to_existing_stage cfg (Some st) = (Returned True, [], Some st')
         \<and> st' shelf_path = Some pr
         \<and> references pr = [shelf_reference]
         \<and> add_shelf_to_existing_stage cfg (Some st') = (Returned True, [], Some st'))"
proof -
  define pr0 where "pr0 = AddReference shelf_reference (ClearReferences
                 (case st shelf_path of None \<Rightarrow> new_prim ''Xform'' | Some pr \<Rightarrow> pr))"
  define st1 where
    "st1 = (case st shelf_path of None \<Rightarrow> DefinePrim st shelf_path ''Xform'' | Some pr \<Rightarrow> st)"
  define pr1 where
    "pr1 = (if APPLY_SHELF_WORLD_XFORM cfg then snd (shelf_world_xform_ops cfg pr0) else pr0)"
  have refs0: "references pr0 = [shelf_reference]"
    by (simp add: pr0_def AddReference_def ClearReferences_def)
  have refs1: "references pr1 = [shelf_reference]"
    using shelf_world_xform_ops_result [of cfg pr0] refs0 by (auto simp: pr1_def)
  have first: "add_shelf_to_existing_stage cfg (Some st) =
      (Returned True, [], Some (st1(shelf_path \<mapsto> pr1)))"
    by (simp add: add_shelf_Some pr0_def st1_def pr1_def Let_def)
  have again: "(if APPLY_SHELF_WORLD_XFORM cfg
        then snd (shelf_world_xform_ops cfg (AddReference shelf_reference (ClearReferences pr1)))
        else AddReference shelf_reference (ClearReferences pr1)) = pr1"
  proof (cases "APPLY_SHELF_WORLD_XFORM cfg")
    case True
    obtain r p where rp: "shelf_world_xform_ops cfg pr0 = (r, p)"
      by (cases "shelf_world_xform_ops cfg pr0")
    with True have "pr1 = p" by (simp add: pr1_def)
    with rp refs0 True show ?thesis
      by (simp add: shelf_world_xform_ops_again)
  next
    case False
    with refs1 show ?thesis by (simp add: AddReference_again)
  qed
  have second: "add_shelf_to_existing_stage cfg (Some (st1(shelf_path \<mapsto> pr1))) =
      (Returned True, [], Some (st1(shelf_path \<mapsto> pr1)))"
    using again by (simp add: add_shelf_Some Let_def)
  have none: "add_shelf_to_existing_stage cfg None = (Returned False, [NoStageOpen], None)"
    by (simp add: add_shelf_to_existing_stage_def)
  from none first second refs1 show ?thesis by simp
qed

theorem add_shelf_single_reference_witness:
  "length (references stale_shelf) = 2
   \<and> (\<exists>st' pr. add_shelf_to_existing_stage override_cfg (Some [shelf_path \<mapsto> stale_shelf])
                  = (Returned True, [], Some st')
          \<and> st' shelf_path = Some pr
          \<and> references pr = [shelf_reference]
          \<and> add_shelf_to_existing_stage override_cfg (Some st') = (Returned True, [], Some st'))"
  using add_shelf_single_reference [of override_cfg "[shelf_path \<mapsto> stale_shelf]"]
  by (simp add: stale_shelf_def)

text \<open>
  C7, at a stage that has the shelf prim, with the world transform enabled in override
  mode: the call returns true and the op order is translate, rotate-ZYX, but the prim does
  not reset the transform stack. \<^verbatim>\<open>SetResetXformStack(True)\<close> puts its token into
  \<^verbatim>\<open>xformOpOrder\<close>, and the \<^verbatim>\<open>ClearXformOpOrder()\<close> and \<^verbatim>\<open>SetXformOpOrder([...])\<close> that follow
  write that array anew without it.
\<close>

theorem override_reset_flag_lost:
  "\<exists>st'. apply_shelf_world_transform_if_enabled override_cfg
            [shelf_path \<mapsto> new_prim ''Xform''] = (Returned True, [], st')
     \<and> map_option xformOpOrder (st' shelf_path) = Some [Op OpTranslate, Op OpRotateZYX]
     \<and> map_option GetResetXformStack (st' shelf_path) = Some False"
  by (simp add: apply_shelf_world_transform_if_enabled_def override_cfg_def
      shelf_world_xform_ops_def usd_defs Let_def GetResetXformStack_def SetResetXformStack_def
      new_prim_def lower_def lower_char_def)

section \<open>The product hierarchy: which group nodes exist\<close>

lemma fold_DefinePrim_at:
  assumes "ty \<noteq> []"
  shows "fold (\<lambda>p st. DefinePrim st p ty) ps st q =
     (if q \<in> set ps
      then Some (case st q of None \<Rightarrow> new_prim ty | Some pr \<Rightarrow> pr\<lparr>typeName := ty\<rparr>)
      else if q \<noteq> [] \<and> (\<exists>p\<in>set ps. strict_prefix q p) \<and> st q = None
           then Some (new_prim []) else st q)"
proof (induction ps arbitrary: q rule: rev_induct)
  case Nil
  show ?case by simp
next
  case (snoc p ps)
  let ?F = "fold (\<lambda>p st. DefinePrim st p ty) ps st"
  have step: "fold (\<lambda>p st. DefinePrim st p ty) (ps @ [p]) st q = DefinePrim ?F p ty q"
    by simp
  show ?case
  proof (cases "q = p")
    case True
    have "DefinePrim ?F p ty p = Some (defined_prim ?F p ty)"
      by (simp add: DefinePrim_def)
    also have "defined_prim ?F p ty =
        (case st p of None \<Rightarrow> new_prim ty | Some pr \<Rightarrow> pr\<lparr>typeName := ty\<rparr>)"
      using assms
      by (simp add: defined_prim_def snoc.IH [of p] new_prim_def split: option.splits)
    finally show ?thesis using True step by simp
  next
    case False
    have eq: "DefinePrim ?F p ty q =
        (if q \<noteq> [] \<and> strict_prefix q p \<and> ?F q = None then Some (new_prim []) else ?F q)"
      using False by (simp add: DefinePrim_def)
    note Fq = snoc.IH [of q]
    show ?thesis
      unfolding step eq Fq using False by (auto split: option.splits)
  qed
qed

lemma define_categories_fold:
  "define_categories p cs st = fold (\<lambda>q st. DefinePrim st q ''Scope'') (map (\<lambda>c. p @ [c]) cs) st"
  by (simp add: define_categories_def fold_map comp_def)

lemma define_shelves_fold:
  "define_shelves sc st = fold (\<lambda>q st. DefinePrim st q ''Scope'') (group_paths sc) st"
proof (induction sc arbitrary: st)
  case Nil
  show ?case by (simp add: define_shelves_def group_paths_def)
next
  case (Cons x sc)
  obtain s cs where x: "x = (s, cs)" by (cases x)
  have "define_shelves (x # sc) st =
      define_shelves sc (define_categories (shelf_path @ [s]) cs
        (DefinePrim st (shelf_path @ [s]) ''Scope''))"
    by (simp add: define_shelves_def x)
  then show ?case
    by (simp add: Cons.IH define_categories_fold group_paths_def x)
qed

lemma pairs_of_Nil: "pairs_of [] = {}"
  by (simp add: pairs_of_def)

lemma pairs_of_Cons: "pairs_of ((s, cs) # sc) = (\<lambda>c. (s, c)) ` set cs \<union> pairs_of sc"
  by (auto simp: pairs_of_def)

lemma pairs_of_setdefault_add:
  "pairs_of (setdefault_add sc s c) = insert (s, c) (pairs_of sc)"
  by (induction sc s c rule: setdefault_add.induct) (auto simp: pairs_of_Nil pairs_of_Cons)

lemma keys_setdefault_add:
  "fst ` set (setdefault_add sc s c) = insert s (fst ` set sc)"
  by (induction sc s c rule: setdefault_add.induct) auto

lemma set_group_paths:
  "set (group_paths sc) =
     (\<lambda>s. shelf_path @ [s]) ` fst ` set sc \<union> (\<lambda>(s, c). shelf_path @ [s, c]) ` pairs_of sc"
proof (induction sc)
  case Nil
  show ?case by (simp add: group_paths_def pairs_of_Nil)
next
  case (Cons x sc)
  obtain s cs where x: "x = (s, cs)" by (cases x)
  have "set (group_paths (x # sc)) =
      insert (shelf_path @ [s]) ((\<lambda>c. shelf_path @ [s, c]) ` set cs) \<union> set (group_paths sc)"
    by (simp add: group_paths_def x)
  also have "(\<lambda>c. shelf_path @ [s, c]) ` set cs =
      (\<lambda>(s, c). shelf_path @ [s, c]) ` (\<lambda>c. (s, c)) ` set cs"
    by (simp add: image_image)
  finally show ?case
    by (simp add: Cons.IH x pairs_of_Cons image_Un Un_ac insert_commute)
qed

lemma fold_setdefault_add:
  "pairs_of (fold (\<lambda>(product_id, product_data) acc.
       setdefault_add acc (get_shelf product_data) (get_category product_data)) cat acc)
     = catalog_pairs cat \<union> pairs_of acc
   \<and> fst ` set (fold (\<lambda>(product_id, product_data) acc.
       setdefault_add acc (get_shelf product_data) (get_category product_data)) cat acc)
     = fst ` catalog_pairs cat \<union> fst ` set acc"
proof (induction cat arbitrary: acc)
  case Nil
  show ?case by (simp add: catalog_pairs_def)
next
  case (Cons x cat)
  obtain pid e where x: "x = (pid, e)" by (cases x)
  have cp: "catalog_pairs (x # cat) = insert (get_shelf e, get_category e) (catalog_pairs cat)"
    by (simp add: catalog_pairs_def x)
  show ?case
    by (simp add: x cp [unfolded x] Cons.IH pairs_of_setdefault_add keys_setdefault_add)
qed

lemma shelf_categories_sets:
  "pairs_of (shelf_categories cat) = catalog_pairs cat"
  "fst ` set (shelf_categories cat) = fst ` catalog_pairs cat"
  using fold_setdefault_add [of cat "[]"]
  by (simp_all add: shelf_categories_def pairs_of_Nil)

lemma set_group_paths_catalog:
  "set (group_paths (shelf_categories cat)) = catalog_group_paths cat"
proof -
  have "(\<lambda>s. shelf_path @ [s]) ` fst ` catalog_pairs cat =
      (\<lambda>(s, c). shelf_path @ [s]) ` catalog_pairs cat"
    by (simp add: image_image split_beta)
  then show ?thesis
    by (simp add: set_group_paths shelf_categories_sets catalog_group_paths_def)
qed

lemma create_product_hierarchy_at:
  assumes "st shelf_path = Some shelf_prim"
  shows "\<exists>st'. create_product_hierarchy cat st = (Returned True, [], st')
     \<and> (\<forall>q. st' q =
          (if q \<in> catalog_group_paths cat
           then Some (case st q of None \<Rightarrow> new_prim ''Scope''
                      | Some pr \<Rightarrow> pr\<lparr>typeName := ''Scope''\<rparr>)
           else if q \<noteq> [] \<and> (\<exists>p\<in>catalog_group_paths cat. strict_prefix q p) \<and> st q = None
                then Some (new_prim []) else st q))"
  using assms
  by (simp add: create_product_hierarchy_def define_shelves_fold fold_DefinePrim_at
      set_group_paths_catalog)

lemma shelf_path_snoc2_in_groups:
  "(shelf_path @ [s, c] \<in> catalog_group_paths cat) = ((s, c) \<in> catalog_pairs cat)"
  by (auto simp: catalog_group_paths_def)

lemma shelf_path_snoc_in_groups:
  "(shelf_path @ [s] \<in> catalog_group_paths cat) = (s \<in> fst ` catalog_pairs cat)"
  by (force simp: catalog_group_paths_def)

text \<open>
  C5, as amended. Without a prim at \<^verbatim>\<open>/World/Shelf\<close> the hierarchy build returns false after
  printing that the shelf does not exist, and leaves the stage as it is. With one it returns
  true, and then a group node stands at the path of a (shelf level, category) pair exactly
  when the pair comes from the catalog or a group node stood there before the call; the
  same for the shelf-level paths. A prim that was on the stage before keeps everything but
  its type name, which becomes \<^verbatim>\<open>Scope\<close> at the catalog's group paths.
\<close>

theorem create_product_hierarchy_groups:
  "(st shelf_path = None \<longrightarrow>
      create_product_hierarchy cat st = (Returned False, [ShelfDoesNotExist], st))
   \<and> (st shelf_path \<noteq> None \<longrightarrow>
      (\<exists>st'. create_product_hierarchy cat st = (Returned True, [], st')
         \<and> (\<forall>s c. is_group st' (shelf_path @ [s, c]) =
                ((s, c) \<in> catalog_pairs cat \<or> is_group st (shelf_path @ [s, c])))
         \<and> (\<forall>s. is_group st' (shelf_path @ [s]) =
                (s \<in> fst ` catalog_pairs cat \<or> is_group st (shelf_path @ [s])))
         \<and> (\<forall>q pr. st q = Some pr \<longrightarrow>
                st' q = Some (if q \<in> catalog_group_paths cat
                              then pr\<lparr>typeName := ''Scope''\<rparr> else pr))))"
proof (cases "st shelf_path")
  case None
  then show ?thesis by (simp add: create_product_hierarchy_def)
next
  case (Some shelf_prim)
  from Some create_product_hierarchy_at [of st shelf_prim cat] obtain st'
    where run: "create_product_hierarchy cat st = (Returned True, [], st')"
      and at: "\<And>q. st' q =
          (if q \<in> catalog_group_paths cat
           then Some (case st q of None \<Rightarrow> new_prim ''Scope''
                      | Some pr \<Rightarrow> pr\<lparr>typeName := ''Scope''\<rparr>)
           else if q \<noteq> [] \<and> (\<exists>p\<in>catalog_group_paths cat. strict_prefix q p) \<and> st q = None
                then Some (new_prim []) else st q)"
    by blast
  have g2: "is_group st' (shelf_path @ [s, c]) =
      ((s, c) \<in> catalog_pairs cat \<or> is_group st (shelf_path @ [s, c]))" for s c
    by (simp add: is_group_def at shelf_path_snoc2_in_groups new_prim_def split: option.splits)
  have g1: "is_group st' (shelf_path @ [s]) =
      (s \<in> fst ` catalog_pairs cat \<or> is_group st (shelf_path @ [s]))" for s
    by (simp add: is_group_def at shelf_path_snoc_in_groups new_prim_def split: option.splits)
  have keep: "st q = Some pr \<Longrightarrow>
      st' q = Some (if q \<in> catalog_group_paths cat then pr\<lparr>typeName := ''Scope''\<rparr> else pr)"
    for q pr
    by (simp add: at)
  from Some run g1 g2 keep show ?thesis by simp
qed

text \<open>
  C5, as stated, fails: a group node that the stage held before the call, for a pair that is
  not in the catalog, is still there afterwards.
\<close>

theorem stale_group_survives:
  "\<exists>st'. create_product_hierarchy [(''A'', chips)] old_stage = (Returned True, [], st')
     \<and> is_group st' (shelf_path @ [''Old'', ''Misc''])
     \<and> (''Old'', ''Misc'') \<notin> catalog_pairs [(''A'', chips)]"
  by (simp add: create_product_hierarchy_def old_stage_def shelf_categories_def
      define_shelves_def define_categories_def DefinePrim_def defined_prim_def is_group_def
      catalog_pairs_def get_shelf_def get_category_def chips_def shelf_path_def new_prim_def)

theorem create_product_hierarchy_groups_witness:
  "\<exists>st'. create_product_hierarchy [(''A'', chips)] old_stage = (Returned True, [], st')
     \<and> is_group st' (shelf_path @ [''Items_Lower'', ''Snacks''])
     \<and> is_group st' (shelf_path @ [''Items_Lower''])
     \<and> \<not> is_group st' (shelf_path @ [''Items_Upper''])
     \<and> st' shelf_path = Some (new_prim ''Xform'')"
  using create_product_hierarchy_groups [of old_stage "[(''A'', chips)]"]
  by (auto simp: old_stage_def catalog_pairs_def catalog_group_paths_def get_shelf_def
      get_category_def chips_def shelf_path_def is_group_def new_prim_def)

section \<open>Sampling and the randomized catalog\<close>

lemma remove_nth_distinct:
  assumes "distinct pool" and "j < length pool"
  shows "distinct (take j pool @ drop (Suc j) pool)"
    and "set (take j pool @ drop (Suc j) pool) = set pool - {pool ! j}"
proof -
  have split: "pool = take j pool @ pool ! j # drop (Suc j) pool"
    using assms(2) by (rule id_take_nth_drop)
  with assms(1) have d: "distinct (take j pool @ pool ! j # drop (Suc j) pool)"
    by simp
  then show "distinct (take j pool @ drop (Suc j) pool)"
    by simp
  from d have notin: "pool ! j \<notin> set (take j pool @ drop (Suc j) pool)"
    by simp
  have "set pool = insert (pool ! j) (set (take j pool @ drop (Suc j) pool))"
    by (subst split) simp
  with notin show "set (take j pool @ drop (Suc j) pool) = set pool - {pool ! j}"
    by blast
qed

lemma sample_from_props:
  assumes "distinct pool" and "k \<le> length pool"
  shows "length (sample_from f i pool k) = k
       \<and> distinct (sample_from f i pool k)
       \<and> set (sample_from f i pool k) \<subseteq> set pool"
  using assms
proof (induction k arbitrary: i pool)
  case 0
  show ?case by simp
next
  case (Suc k)
  let ?j = "f i mod length pool"
  let ?rest = "take ?j pool @ drop (Suc ?j) pool"
  from Suc.prems have ne: "pool \<noteq> []" by auto
  then have j: "?j < length pool" by simp
  from Suc.prems(1) j have dr: "distinct ?rest" and sr: "set ?rest = set pool - {pool ! ?j}"
    by (rule remove_nth_distinct)+
  from Suc.prems(2) j have "k \<le> length ?rest" by simp
  with dr have IH: "length (sample_from f (Suc i) ?rest k) = k
       \<and> distinct (sample_from f (Suc i) ?rest k)
       \<and> set (sample_from f (Suc i) ?rest k) \<subseteq> set ?rest"
    by (rule Suc.IH)
  have eq: "sample_from f i pool (Suc k) = pool ! ?j # sample_from f (Suc i) ?rest k"
    using ne by (simp add: Let_def)
  from IH sr j show ?case
    unfolding eq by auto
qed

lemma sample_from_subset:
  "set (sample_from f i pool k) \<subseteq> set pool"
proof (induction k arbitrary: i pool)
  case 0
  show ?case by simp
next
  case (Suc k)
  show ?case
  proof (cases "pool = []")
    case True
    then show ?thesis by simp
  next
    case False
    let ?j = "f i mod length pool"
    have j: "?j < length pool" using False by simp
    have "set (take ?j pool @ drop (Suc ?j) pool) \<subseteq> set pool"
      by (auto dest: in_set_takeD in_set_dropD)
    with Suc.IH [of "Suc i" "take ?j pool @ drop (Suc ?j) pool"] j False show ?thesis
      by (auto simp: Let_def)
  qed
qed

lemma map_of_setitem: "map_of (setitem d k v) = (map_of d)(k \<mapsto> v)"
  by (induction d k v rule: setitem.induct) (auto simp: fun_eq_iff)

lemma map_fst_setitem: "k \<in> fst ` set d \<Longrightarrow> map fst (setitem d k v) = map fst d"
  by (induction d k v rule: setitem.induct) auto

lemma same_items_refl: "same_items d d"
  by (simp add: same_items_def same_placement_def list_all2_same)

lemma same_items_trans:
  assumes "same_items a b" and "same_items b c"
  shows "same_items a c"
  using assms unfolding same_items_def
  by (rule list_all2_trans [rotated]) (auto simp: same_placement_def)

lemma same_items_setitem:
  assumes "map_of d k = Some e" and "same_placement e e'"
  shows "same_items d (setitem d k e')"
  using assms
proof (induction d k e' rule: setitem.induct)
  case (1 k v)
  then show ?case by simp
next
  case (2 k' v' d k v)
  show ?case
  proof (cases "k' = k")
    case True
    with "2.prems" show ?thesis
      using same_items_refl [of d] by (simp add: same_items_def)
  next
    case False
    with "2.prems" have "same_items d (setitem d k v)"
      by (intro "2.IH") auto
    with False show ?thesis
      by (simp add: same_items_def same_placement_def)
  qed
qed

lemma randomize_selected_ok:
  assumes "set sel \<subseteq> fst ` set d"
  shows "\<exists>d'. randomize_selected rs n sel d = Inr d' \<and> same_items d d' \<and> map fst d' = map fst d"
  using assms
proof (induction sel arbitrary: n d)
  case Nil
  show ?case by (simp add: same_items_refl)
next
  case (Cons pid sel)
  from Cons.prems have "pid \<in> fst ` set d" by simp
  then obtain pd where pd: "map_of d pid = Some pd"
    by (metis domIff dom_map_of_conv_image_fst not_Some_eq)
  let ?pd' = "pd\<lparr>rotate_key := Some (random_rotation rs n), orient := None\<rparr>"
  let ?d1 = "setitem d pid ?pd'"
  have keys: "map fst ?d1 = map fst d"
    using \<open>pid \<in> fst ` set d\<close> by (rule map_fst_setitem)
  have s1: "same_items d ?d1"
    using pd by (rule same_items_setitem) (simp add: same_placement_def)
  from keys Cons.prems have "set sel \<subseteq> fst ` set ?d1"
    by (metis set_map set_subset_Cons subset_trans)
  from Cons.IH [OF this, of "n + 3"] obtain d'
    where run: "randomize_selected rs (n + 3) sel ?d1 = Inr d'"
      and s2: "same_items ?d1 d'" and k2: "map fst d' = map fst ?d1"
    by blast
  from pd run have "randomize_selected rs n (pid # sel) d = Inr d'" by simp
  with s1 s2 k2 keys show ?case
    by (auto intro: same_items_trans)
qed

lemma sample_le:
  assumes "0 \<le> k"
  shows "\<exists>sel. sample rs xs (min k (int (length xs))) = Inr sel \<and> set sel \<subseteq> set xs
         \<and> sel = sample_from (pick rs) 0 xs (nat (min k (int (length xs))))"
  using assms by (simp add: sample_def sample_from_subset)

lemma randomize_product_rotations_ok:
  assumes "0 \<le> k"
  shows "\<exists>d'. randomize_product_rotations rs d k = Inr d' \<and> same_items d d'
           \<and> map fst d' = map fst d"
proof -
  from sample_le [OF assms, of rs "map fst d"] obtain sel
    where s: "sample rs (map fst d) (min k (int (length (map fst d)))) = Inr sel"
      and sub: "set sel \<subseteq> set (map fst d)"
    by blast
  from sub have "set sel \<subseteq> fst ` set d" by simp
  from randomize_selected_ok [OF this, of rs 0] s show ?thesis
    by (simp add: randomize_product_rotations_def Let_def)
qed

section \<open>Placing all products\<close>

lemma place_product_ops_fst:
  "fst (place_product_ops e pr) =
     (if placeable e then None else Some (KeyError (missing_key e)))"
  by (auto simp: place_product_ops_def usd_defs Let_def placeable_def missing_key_def
      split: option.splits prod.splits)

lemma place_product_fst:
  "fst (place_product st pid e) =
     (if placeable e then None else Some (KeyError (missing_key e)))"
  using place_product_ops_fst [of e "defined_prim st (product_path pid e) []"]
  by (simp add: place_product_def Let_def split_beta)

lemma place_each_result:
  "place_each items (n, out, st) =
     (n + placed_count items, out @ failures items, place_stage items st)"
proof (induction items arbitrary: n out st)
  case Nil
  show ?case by (simp add: placed_count_def failures_def place_stage_def)
next
  case (Cons x items)
  obtain pid e where x: "x = (pid, e)" by (cases x)
  obtain r st' where pp: "place_product st pid e = (r, st')"
    by (cases "place_product st pid e")
  with place_product_fst [of st pid e]
  have r: "r = (if placeable e then None else Some (KeyError (missing_key e)))" by simp
  show ?case
    by (simp add: x pp r Cons.IH placed_count_def failures_def place_stage_def)
qed

lemma place_product_other:
  assumes "q \<noteq> product_path pid e" and "st q = Some pr"
  shows "snd (place_product st pid e) q = Some pr"
  using assms by (simp add: place_product_def Let_def split_beta DefinePrim_def)

lemma place_product_at:
  assumes "placeable e"
  shows "\<exists>pr. snd (place_product st pid e) (product_path pid e) = Some pr
           \<and> xformOpOrder pr = expected_order e"
proof -
  from assms obtain a t s
    where "asset e = Some a" "translate e = Some t" "scale e = Some s"
    by (auto simp: placeable_def)
  from place_product_ops_ok(2) [OF this] show ?thesis
    by (simp add: place_product_def Let_def split_beta expected_order_def)
qed

lemma place_stage_other:
  assumes "\<forall>(pid, e)\<in>set items. product_path pid e \<noteq> q" and "st q = Some pr"
  shows "place_stage items st q = Some pr"
  using assms
proof (induction items arbitrary: st)
  case Nil
  then show ?case by (simp add: place_stage_def)
next
  case (Cons x items)
  obtain pid e where x: "x = (pid, e)" by (cases x)
  from Cons.prems x have "snd (place_product st pid e) q = Some pr"
    by (intro place_product_other) auto
  moreover from Cons.prems have "\<forall>(pid, e)\<in>set items. product_path pid e \<noteq> q" by simp
  ultimately have "place_stage items (snd (place_product st pid e)) q = Some pr"
    by (rule Cons.IH [rotated])
  then show ?case by (simp add: place_stage_def x)
qed

lemma product_path_inj: "product_path pid e = product_path pid' e' \<Longrightarrow> pid = pid'"
  by (simp add: product_path_def)

lemma place_stage_at:
  assumes "distinct (map fst items)" and "(pid, e) \<in> set items" and "placeable e"
  shows "\<exists>pr. place_stage items st (product_path pid e) = Some pr
           \<and> xformOpOrder pr = expected_order e"
  using assms
proof (induction items arbitrary: st)
  case Nil
  then show ?case by simp
next
  case (Cons x items)
  obtain pid' e' where x: "x = (pid', e')" by (cases x)
  have step: "place_stage (x # items) st = place_stage items (snd (place_product st pid' e'))"
    by (simp add: place_stage_def x)
  show ?case
  proof (cases "(pid, e) \<in> set items")
    case True
    with Cons.prems have "\<exists>pr. place_stage items (snd (place_product st pid' e'))
        (product_path pid e) = Some pr \<and> xformOpOrder pr = expected_order e"
      by (intro Cons.IH) auto
    then show ?thesis by (simp add: step)
  next
    case False
    with Cons.prems x have here: "pid' = pid" "e' = e" by auto
    from Cons.prems(3) obtain pr
      where pr: "snd (place_product st pid e) (product_path pid e) = Some pr"
        and ord: "xformOpOrder pr = expected_order e"
      using place_product_at by blast
    from Cons.prems(1) x here have "pid \<notin> fst ` set items" by simp
    then have "\<forall>(p, d)\<in>set items. product_path p d \<noteq> product_path pid e"
      by (force dest: product_path_inj)
    then have "place_stage items (snd (place_product st pid e)) (product_path pid e) = Some pr"
      using pr by (rule place_stage_other)
    with ord show ?thesis
      by (simp add: step here)
  qed
qed

lemma same_placement_placeable: "same_placement e e' \<Longrightarrow> placeable e' = placeable e"
  by (simp add: same_placement_def placeable_def)

lemma same_items_placeable:
  assumes "same_items d d'"
  shows "placed_count d' = placed_count d"
  using assms unfolding same_items_def
  by (induction rule: list_all2_induct)
     (auto simp: placed_count_def split_beta dest: same_placement_placeable)

text \<open>
  C8. \<open>items\<close> is the randomized catalog that \<^verbatim>\<open>place_all_products\<close> iterates over. The
  call returns (no exception leaves it); each entry that lacks its asset, translation or
  scale gives one \<^verbatim>\<open>Error placing\<close> line with the \<^verbatim>\<open>KeyError\<close> of the first missing key and
  is not counted; every other entry is counted and, wherever it stands in the catalog, its
  prim is on the final stage with its op order. The last line printed is the count of
  entries placed and the number of entries, and the value returned is whether the count is
  positive.
\<close>

theorem place_all_products_tally:
  assumes "distinct (map fst cat)"
  shows "\<exists>items. randomize_product_rotations rs cat 3 = Inr items
           \<and> map fst items = map fst cat
           \<and> place_all_products rs cat st =
               (Returned (0 < placed_count items),
                failures items @ [Placed (placed_count items) (length items)],
                place_stage items st)
           \<and> placed_count items = placed_count cat
           \<and> (\<forall>pid e. (pid, e) \<in> set items \<and> placeable e \<longrightarrow>
                 (\<exists>pr. place_stage items st (product_path pid e) = Some pr
                    \<and> xformOpOrder pr = expected_order e))"
proof -
  from randomize_product_rotations_ok [of 3 rs cat] obtain items
    where r: "randomize_product_rotations rs cat 3 = Inr items"
      and same: "same_items cat items" and keys: "map fst items = map fst cat"
    by auto
  have run: "place_all_products rs cat st =
      (Returned (0 < placed_count items),
       failures items @ [Placed (placed_count items) (length items)],
       place_stage items st)"
    by (simp add: place_all_products_def r place_each_result)
  from assms keys have "distinct (map fst items)" by simp
  then have at: "\<forall>pid e. (pid, e) \<in> set items \<and> placeable e \<longrightarrow>
      (\<exists>pr. place_stage items st (product_path pid e) = Some pr
         \<and> xformOpOrder pr = expected_order e)"
    using place_stage_at by blast
  from r keys run at same_items_placeable [OF same] show ?thesis by simp
qed

lemma randomize_two_items:
  "randomize_product_rotations fixed_source two_items 3 = Inr two_varied"
  by (simp add: randomize_product_rotations_def sample_def Let_def two_items_def
      two_varied_def fixed_source_def numeral_2_eq_2 random_rotation_def uniform_def
      random_def)

theorem place_all_products_tally_witness:
  "distinct (map fst two_items)
   \<and> place_all_products fixed_source two_items Map.empty =
          (Returned True, [ErrorPlacing ''A'' (KeyError ''asset''), Placed 1 2],
           place_stage two_varied Map.empty)
   \<and> (\<exists>pr. place_stage two_varied Map.empty
              (shelf_path @ [''Items_Lower'', ''Snacks'', ''B'']) = Some pr
          \<and> xformOpOrder pr = [Op OpTranslate, Op OpRotateZYX, Op OpScale])"
proof -
  have d: "distinct (map fst two_items)"
    by (simp add: two_items_def)
  have counts: "placed_count two_varied = 1" "failures two_varied =
      [ErrorPlacing ''A'' (KeyError ''asset'')]" "length two_varied = 2"
    by (simp_all add: two_varied_def placed_count_def failures_def placeable_def
        missing_key_def no_asset_def chips_def)
  have b: "(''B'', chips\<lparr>rotate_key := Some (-180, -180, -180), orient := None\<rparr>)
      \<in> set two_varied"
    "placeable (chips\<lparr>rotate_key := Some (-180, -180, -180), orient := None\<rparr>)"
    "product_path ''B'' (chips\<lparr>rotate_key := Some (-180, -180, -180), orient := None\<rparr>)
       = shelf_path @ [''Items_Lower'', ''Snacks'', ''B'']"
    "expected_order (chips\<lparr>rotate_key := Some (-180, -180, -180), orient := None\<rparr>)
       = [Op OpTranslate, Op OpRotateZYX, Op OpScale]"
    by (simp_all add: two_varied_def placeable_def chips_def product_path_def get_shelf_def
        get_category_def expected_order_def)
  from place_all_products_tally [OF d, of fixed_source Map.empty] obtain items
    where "randomize_product_rotations fixed_source two_items 3 = Inr items"
      and run: "place_all_products fixed_source two_items Map.empty =
               (Returned (0 < placed_count items),
                failures items @ [Placed (placed_count items) (length items)],
                place_stage items Map.empty)"
      and at: "\<forall>pid e. (pid, e) \<in> set items \<and> placeable e \<longrightarrow>
                 (\<exists>pr. place_stage items Map.empty (product_path pid e) = Some pr
                    \<and> xformOpOrder pr = expected_order e)"
    by blast
  then have items: "items = two_varied"
    by (simp add: randomize_two_items)
  from at b have "\<exists>pr. place_stage two_varied Map.empty
              (shelf_path @ [''Items_Lower'', ''Snacks'', ''B'']) = Some pr
          \<and> xformOpOrder pr = [Op OpTranslate, Op OpRotateZYX, Op OpScale]"
    unfolding items by metis
  with d run counts show ?thesis
    unfolding items by simp
qed

section \<open>The whole setup on an empty catalog\<close>

lemma apply_shelf_cases:
  "(\<exists>st'. apply_shelf_world_transform_if_enabled cfg st = (Returned True, [], st')
        \<and> (st shelf_path = None \<longrightarrow> st' = st)
        \<and> (st' shelf_path = None) = (st shelf_path = None))
   \<or> (apply_shelf_world_transform_if_enabled cfg st =
          (Returned False, [CannotApplyWorldTransform], st)
       \<and> st shelf_path = None \<and> APPLY_SHELF_WORLD_XFORM cfg)"
proof (cases "st shelf_path")
  case None
  then show ?thesis by (simp add: apply_shelf_world_transform_if_enabled_def)
next
  case (Some pr)
  then have "st = st(shelf_path \<mapsto> pr)" by (simp add: fun_upd_idem)
  then have "apply_shelf_world_transform_if_enabled cfg st =
     (Returned True, [],
      st(shelf_path \<mapsto>
           (if APPLY_SHELF_WORLD_XFORM cfg then snd (shelf_world_xform_ops cfg pr) else pr)))"
    using apply_shelf_at [of cfg st pr] by simp
  with Some show ?thesis by simp
qed

lemma attach_base_cases:
  "(\<exists>st'. attach_base cfg opened ctx = (Returned True, [], Some st'))
   \<or> (\<exists>out ctx'. attach_base cfg opened ctx = (Returned False, out, ctx') \<and> out \<noteq> [])"
proof (cases "use_current_scene cfg")
  case True
  show ?thesis
  proof (cases ctx)
    case None
    with True show ?thesis
      by (simp add: attach_base_def add_shelf_to_existing_stage_def)
  next
    case (Some st)
    with True show ?thesis
      by (simp add: attach_base_def add_shelf_Some Let_def)
  qed
next
  case False
  show ?thesis
  proof (cases opened)
    case None
    with False show ?thesis
      by (simp add: attach_base_def load_empty_shop_sync_def)
  next
    case (Some st)
    with False apply_shelf_cases [of cfg st] show ?thesis
      by (auto simp: attach_base_def load_empty_shop_sync_def)
  qed
qed

lemma add_shelf_single_reference_aux:
  "\<exists>st' pr. add_shelf_to_existing_stage cfg (Some st) = (Returned True, [], Some st')
         \<and> st' shelf_path = Some pr"
  by (simp add: add_shelf_Some Let_def)

lemma place_all_products_empty:
  "place_all_products rs [] st = (Returned False, [Placed 0 0], st)"
  by (simp add: place_all_products_def randomize_product_rotations_def sample_def)

lemma create_product_hierarchy_empty:
  "create_product_hierarchy [] st =
     (if st shelf_path = None then (Returned False, [ShelfDoesNotExist], st)
      else (Returned True, [], st))"
  by (simp add: create_product_hierarchy_def shelf_categories_def define_shelves_def
      split: option.splits)

lemma setup_empty_after_attach:
  assumes "attach_base cfg opened ctx = (Returned True, [], Some st')"
  shows "setup_scene_sync cfg opened rs [] ctx =
     (Returned False,
      if st' shelf_path = None then [ShelfDoesNotExist] else [Placed 0 0], Some st')"
  using assms
  by (simp add: setup_scene_sync_def create_product_hierarchy_empty place_all_products_empty)

text \<open>
  C9. On an empty catalog \<^verbatim>\<open>place_all_products\<close> places nothing, prints the count 0/0 and
  returns false, and \<^verbatim>\<open>setup_scene_sync\<close> returns false whatever the configuration and the
  stage are. When the shelf is added to an open stage, the count is the only line reported:
  no stage of the setup failed and no entry did.
\<close>

theorem empty_catalog_fails:
  "place_all_products rs [] st = (Returned False, [Placed 0 0], st)
   \<and> (\<exists>out ctx'. setup_scene_sync cfg opened rs [] ctx = (Returned False, out, ctx'))
   \<and> (use_current_scene cfg \<longrightarrow>
        (\<exists>st'. setup_scene_sync cfg opened rs [] (Some st) =
                 (Returned False, [Placed 0 0], Some st')))"
proof -
  have always: "\<exists>out ctx'. setup_scene_sync cfg opened rs [] ctx = (Returned False, out, ctx')"
    using attach_base_cases [of cfg opened ctx]
  proof
    assume "\<exists>st'. attach_base cfg opened ctx = (Returned True, [], Some st')"
    then obtain st' where "attach_base cfg opened ctx = (Returned True, [], Some st')" ..
    then show ?thesis by (simp add: setup_empty_after_attach)
  next
    assume "\<exists>out ctx'. attach_base cfg opened ctx = (Returned False, out, ctx') \<and> out \<noteq> []"
    then show ?thesis by (auto simp: setup_scene_sync_def)
  qed
  have attach: "\<exists>st'. setup_scene_sync cfg opened rs [] (Some st) =
                 (Returned False, [Placed 0 0], Some st')" if "use_current_scene cfg"
  proof -
    from add_shelf_single_reference_aux [of cfg st] obtain st' pr
      where a: "add_shelf_to_existing_stage cfg (Some st) = (Returned True, [], Some st')"
        and p: "st' shelf_path = Some pr"
      by blast
    from that a have "attach_base cfg opened (Some st) = (Returned True, [], Some st')"
      by (simp add: attach_base_def)
    from setup_empty_after_attach [OF this] p show ?thesis by simp
  qed
  from always attach show ?thesis
    by (simp add: place_all_products_empty)
qed

theorem empty_catalog_fails_witness:
  "use_current_scene override_cfg
   \<and> place_all_products fixed_source [] Map.empty = (Returned False, [Placed 0 0], Map.empty)
   \<and> (\<exists>st'. setup_scene_sync override_cfg None fixed_source [] (Some Map.empty) =
                 (Returned False, [Placed 0 0], Some st'))"
  using empty_catalog_fails [of fixed_source Map.empty override_cfg None None]
  by (simp add: override_cfg_def)

section \<open>Which entries are varied\<close>

lemma random_bounds: "0 \<le> random rs n \<and> random rs n < 1"
proof -
  have "bits rs n mod 2 ^ 53 < (2::nat) ^ 53" by simp
  then have "real (bits rs n mod 2 ^ 53) < 2 ^ 53"
    by (metis of_nat_less_iff of_nat_numeral of_nat_power)
  then show ?thesis by (simp add: random_def)
qed

lemma uniform_bounds: "- 180 \<le> uniform rs n (- 180) 180 \<and> uniform rs n (- 180) 180 < 180"
  using random_bounds [of rs n] by (simp add: uniform_def)

lemma random_rotation_bounds:
  assumes "random_rotation rs n = (x, y, z)"
  shows "- 180 \<le> x \<and> x < 180 \<and> - 180 \<le> y \<and> y < 180 \<and> - 180 \<le> z \<and> z < 180"
  using assms uniform_bounds [of rs n] uniform_bounds [of rs "n + 1"] uniform_bounds [of rs "n + 2"]
  by (auto simp: random_rotation_def)

lemma randomize_selected_content:
  assumes "distinct sel" and "randomize_selected rs n sel d = Inr d'"
  shows "(\<forall>i<length sel. \<exists>e. map_of d (sel ! i) = Some e
            \<and> map_of d' (sel ! i) =
                Some (e\<lparr>rotate_key := Some (random_rotation rs (n + 3 * i)), orient := None\<rparr>))
       \<and> (\<forall>pid. pid \<notin> set sel \<longrightarrow> map_of d' pid = map_of d pid)"
  using assms
proof (induction sel arbitrary: n d)
  case Nil
  then show ?case by simp
next
  case (Cons pid sel)
  from Cons.prems(2) obtain pd where pd: "map_of d pid = Some pd"
    by (cases "map_of d pid") auto
  let ?pd' = "pd\<lparr>rotate_key := Some (random_rotation rs n), orient := None\<rparr>"
  let ?d1 = "setitem d pid ?pd'"
  from Cons.prems(2) pd have run: "randomize_selected rs (n + 3) sel ?d1 = Inr d'" by simp
  from Cons.prems(1) have dist: "distinct sel" and notin: "pid \<notin> set sel" by simp_all
  from Cons.IH [OF dist run]
  have IH1: "\<And>i. i < length sel \<Longrightarrow> \<exists>e. map_of ?d1 (sel ! i) = Some e
            \<and> map_of d' (sel ! i) =
                Some (e\<lparr>rotate_key := Some (random_rotation rs (n + 3 + 3 * i)), orient := None\<rparr>)"
    and IH2: "\<And>p. p \<notin> set sel \<Longrightarrow> map_of d' p = map_of ?d1 p"
    by blast+
  have first: "\<exists>e. map_of d ((pid # sel) ! i) = Some e
            \<and> map_of d' ((pid # sel) ! i) =
                Some (e\<lparr>rotate_key := Some (random_rotation rs (n + 3 * i)), orient := None\<rparr>)"
    if "i < length (pid # sel)" for i
  proof (cases i)
    case 0
    with pd IH2 [OF notin] show ?thesis by (simp add: map_of_setitem)
  next
    case (Suc j)
    with that have j: "j < length sel" by simp
    with notin have "sel ! j \<noteq> pid" by (metis nth_mem)
    with IH1 [OF j] Suc show ?thesis
      by (simp add: map_of_setitem add.assoc add.commute)
  qed
  have second: "map_of d' p = map_of d p" if "p \<notin> set (pid # sel)" for p
    using that IH2 [of p] by (simp add: map_of_setitem)
  from first second show ?case by blast
qed

lemma randomize_product_rotations_content:
  assumes "distinct (map fst cat)" and "0 \<le> k"
  shows "\<exists>sel items.
           sel = sample_from (pick rs) 0 (map fst cat) (nat (min k (int (length cat))))
         \<and> distinct sel \<and> set sel \<subseteq> set (map fst cat)
         \<and> int (length sel) = min k (int (length cat))
         \<and> randomize_product_rotations rs cat k = Inr items
         \<and> map fst items = map fst cat
         \<and> (\<forall>i<length sel. \<exists>e. map_of cat (sel ! i) = Some e
               \<and> map_of items (sel ! i) =
                   Some (e\<lparr>rotate_key := Some (random_rotation rs (3 * i)), orient := None\<rparr>))
         \<and> (\<forall>pid. pid \<notin> set sel \<longrightarrow> map_of items pid = map_of cat pid)"
proof -
  let ?m = "nat (min k (int (length cat)))"
  let ?sel = "sample_from (pick rs) 0 (map fst cat) ?m"
  have "?m \<le> length (map fst cat)" by simp
  with assms(1) have props: "length ?sel = ?m \<and> distinct ?sel \<and> set ?sel \<subseteq> set (map fst cat)"
    by (rule sample_from_props)
  from randomize_product_rotations_ok [OF assms(2), of rs cat] obtain items
    where r: "randomize_product_rotations rs cat k = Inr items"
      and keys: "map fst items = map fst cat"
    by blast
  from assms(2) have s: "sample rs (map fst cat) (min k (int (length (map fst cat)))) = Inr ?sel"
    by (simp add: sample_def)
  with r have "randomize_selected rs 0 ?sel cat = Inr items"
    by (simp add: randomize_product_rotations_def Let_def)
  with props have content:
    "(\<forall>i<length ?sel. \<exists>e. map_of cat (?sel ! i) = Some e
            \<and> map_of items (?sel ! i) =
                Some (e\<lparr>rotate_key := Some (random_rotation rs (0 + 3 * i)), orient := None\<rparr>))
       \<and> (\<forall>pid. pid \<notin> set ?sel \<longrightarrow> map_of items pid = map_of cat pid)"
    by (intro randomize_selected_content) simp_all
  from assms(2) props have len: "int (length ?sel) = min k (int (length cat))" by simp
  from props r keys content len show ?thesis by simp
qed

text \<open>
  C10. \<^verbatim>\<open>place_all_products\<close> passes the literal 3 to \<^verbatim>\<open>randomize_product_rotations\<close> and
  reads no count from the configuration. \<open>sel\<close> is the selection drawn: it holds
  \<open>min 3 |catalog|\<close> distinct product ids. The entries that are placed, \<open>items\<close>, have the
  keys of the catalog in its order; the entry of the \<open>i\<close>-th selected id has its rotation
  replaced by the \<open>i\<close>-th random rotation and its \<^verbatim>\<open>orient\<close> removed, and every other entry
  is the catalog's.
\<close>

theorem place_all_products_varies_three:
  assumes "distinct (map fst cat)"
  shows "\<exists>sel items.
           sel = sample_from (pick rs) 0 (map fst cat) (min 3 (length cat))
         \<and> distinct sel \<and> set sel \<subseteq> set (map fst cat)
         \<and> length sel = min 3 (length cat)
         \<and> map fst items = map fst cat
         \<and> (\<forall>i<length sel. \<exists>e. map_of cat (sel ! i) = Some e
               \<and> map_of items (sel ! i) =
                   Some (e\<lparr>rotate_key := Some (random_rotation rs (3 * i)), orient := None\<rparr>))
         \<and> (\<forall>pid. pid \<notin> set sel \<longrightarrow> map_of items pid = map_of cat pid)
         \<and> place_all_products rs cat st =
              (Returned (0 < placed_count items),
               failures items @ [Placed (placed_count items) (length items)],
               place_stage items st)"
proof -
  have m: "nat (min 3 (int (length cat))) = min 3 (length cat)" by simp
  from randomize_product_rotations_content [OF assms, of 3 rs] obtain sel items
    where sel: "sel = sample_from (pick rs) 0 (map fst cat) (min 3 (length cat))"
      and props: "distinct sel" "set sel \<subseteq> set (map fst cat)"
        "int (length sel) = min 3 (int (length cat))"
      and r: "randomize_product_rotations rs cat 3 = Inr items"
      and keys: "map fst items = map fst cat"
      and content: "\<forall>i<length sel. \<exists>e. map_of cat (sel ! i) = Some e
               \<and> map_of items (sel ! i) =
                   Some (e\<lparr>rotate_key := Some (random_rotation rs (3 * i)), orient := None\<rparr>)"
        "\<forall>pid. pid \<notin> set sel \<longrightarrow> map_of items pid = map_of cat pid"
    unfolding m by auto
  from props(3) have len: "length sel = min 3 (length cat)" by linarith
  have run: "place_all_products rs cat st =
      (Returned (0 < placed_count items),
       failures items @ [Placed (placed_count items) (length items)],
       place_stage items st)"
    by (simp add: place_all_products_def r place_each_result)
  from sel props(1,2) len keys content run show ?thesis by blast
qed

lemma fixed_rotation: "random_rotation fixed_source n = (- 180, - 180, - 180)"
  by (simp add: random_rotation_def uniform_def random_def fixed_source_def)

lemma fixed_sample_four:
  "sample_from (pick fixed_source) 0 (map fst four_items) (min 3 (length four_items))
     = [''A'', ''B'', ''C'']"
proof -
  have "min 3 (length four_items) = Suc (Suc (Suc 0))"
    by (simp add: four_items_def)
  then show ?thesis
    by (simp add: four_items_def fixed_source_def)
qed

theorem place_all_products_varies_three_witness:
  "distinct (map fst four_items)
   \<and> (\<exists>items. snd (snd (place_all_products fixed_source four_items Map.empty)) =
                 place_stage items Map.empty
        \<and> map fst items = [''A'', ''B'', ''C'', ''D'']
        \<and> map_of items ''A'' =
             Some (chips\<lparr>rotate_key := Some (- 180, - 180, - 180), orient := None\<rparr>)
        \<and> map_of items ''B'' =
             Some (chips\<lparr>rotate_key := Some (- 180, - 180, - 180), orient := None\<rparr>)
        \<and> map_of items ''C'' =
             Some (both\<lparr>rotate_key := Some (- 180, - 180, - 180), orient := None\<rparr>)
        \<and> map_of items ''D'' = Some quat_only)"
proof -
  have d: "distinct (map fst four_items)"
    by (simp add: four_items_def)
  from place_all_products_varies_three [OF d, of fixed_source Map.empty] obtain sel items
    where sel: "sel = sample_from (pick fixed_source) 0 (map fst four_items)
                        (min 3 (length four_items))"
      and keys: "map fst items = map fst four_items"
      and varied: "\<forall>i<length sel. \<exists>e. map_of four_items (sel ! i) = Some e
               \<and> map_of items (sel ! i) =
                   Some (e\<lparr>rotate_key := Some (random_rotation fixed_source (3 * i)),
                           orient := None\<rparr>)"
      and rest: "\<forall>pid. pid \<notin> set sel \<longrightarrow> map_of items pid = map_of four_items pid"
      and run: "place_all_products fixed_source four_items Map.empty =
              (Returned (0 < placed_count items),
               failures items @ [Placed (placed_count items) (length items)],
               place_stage items Map.empty)"
    by (elim exE conjE)
  from sel have sel3: "sel = [''A'', ''B'', ''C'']"
    by (simp only: fixed_sample_four)
  have la: "map_of four_items ''A'' = Some chips" "map_of four_items ''B'' = Some chips"
    "map_of four_items ''C'' = Some both" "map_of four_items ''D'' = Some quat_only"
    by (simp_all add: four_items_def)
  have "0 < length sel" by (simp add: sel3)
  with varied have "\<exists>e. map_of four_items (sel ! 0) = Some e
               \<and> map_of items (sel ! 0) =
                   Some (e\<lparr>rotate_key := Some (random_rotation fixed_source (3 * 0)),
                           orient := None\<rparr>)"
    by blast
  then have a: "map_of items ''A'' =
      Some (chips\<lparr>rotate_key := Some (- 180, - 180, - 180), orient := None\<rparr>)"
    by (simp add: sel3 la fixed_rotation)
  have "1 < length sel" by (simp add: sel3)
  with varied have "\<exists>e. map_of four_items (sel ! 1) = Some e
               \<and> map_of items (sel ! 1) =
                   Some (e\<lparr>rotate_key := Some (random_rotation fixed_source (3 * 1)),
                           orient := None\<rparr>)"
    by blast
  then have b: "map_of items ''B'' =
      Some (chips\<lparr>rotate_key := Some (- 180, - 180, - 180), orient := None\<rparr>)"
    by (simp add: sel3 la fixed_rotation)
  have "2 < length sel" by (simp add: sel3)
  with varied have "\<exists>e. map_of four_items (sel ! 2) = Some e
               \<and> map_of items (sel ! 2) =
                   Some (e\<lparr>rotate_key := Some (random_rotation fixed_source (3 * 2)),
                           orient := None\<rparr>)"
    by blast
  then have c: "map_of items ''C'' =
      Some (both\<lparr>rotate_key := Some (- 180, - 180, - 180), orient := None\<rparr>)"
    by (simp add: sel3 la fixed_rotation)
  have "''D'' \<notin> set sel" by (simp add: sel3)
  with rest have "map_of items ''D'' = map_of four_items ''D''" by blast
  then have dd: "map_of items ''D'' = Some quat_only"
    by (simp add: la)
  from keys have k: "map fst items = [''A'', ''B'', ''C'', ''D'']"
    by (simp add: four_items_def)
  from run have st: "snd (snd (place_all_products fixed_source four_items Map.empty)) =
                 place_stage items Map.empty"
    by simp
  from st k a b c dd have "\<exists>items. snd (snd (place_all_products fixed_source four_items Map.empty)) =
                 place_stage items Map.empty
        \<and> map fst items = [''A'', ''B'', ''C'', ''D'']
        \<and> map_of items ''A'' =
             Some (chips\<lparr>rotate_key := Some (- 180, - 180, - 180), orient := None\<rparr>)
        \<and> map_of items ''B'' =
             Some (chips\<lparr>rotate_key := Some (- 180, - 180, - 180), orient := None\<rparr>)
        \<and> map_of items ''C'' =
             Some (both\<lparr>rotate_key := Some (- 180, - 180, - 180), orient := None\<rparr>)
        \<and> map_of items ''D'' = Some quat_only"
    by (intro exI [of _ items] conjI)
  with d show ?thesis ..
qed

section \<open>Random rotations on the object store\<close>

lemma holds_entry_map_of:
  assumes "list_all2 (holds_entry h) d cat"
  shows "(case map_of d pid of
            None \<Rightarrow> map_of cat pid = None
          | Some a \<Rightarrow> \<exists>e. map_of cat pid = Some e \<and> deref h a = Some (EntryObj e))"
  using assms
  by (induction rule: list_all2_induct) (auto simp: holds_entry_def split: option.splits)

lemma holds_entry_setitem:
  assumes "list_all2 (holds_entry h) d cat"
    and "\<And>x y. holds_entry h x y \<Longrightarrow> holds_entry h' x y"
    and "deref h' a = Some (EntryObj e)"
  shows "list_all2 (holds_entry h') (setitem d pid a) (setitem cat pid e)"
  using assms(1)
proof (induction rule: list_all2_induct)
  case Nil
  have "holds_entry h' (pid, a) (pid, e)"
    using assms(3) by (simp add: holds_entry_def)
  then show ?case by simp
next
  case (Cons x xs y ys)
  obtain k v where x: "x = (k, v)" by (cases x)
  obtain k' w where y: "y = (k', w)" by (cases y)
  from Cons.hyps(1) x y have kk: "k' = k" by (simp add: holds_entry_def)
  show ?case
  proof (cases "k = pid")
    case True
    have "list_all2 (holds_entry h') xs ys"
      using Cons.hyps(2) assms(2) by (rule list_all2_mono)
    moreover have "holds_entry h' (pid, a) (pid, e)"
      using assms(3) by (simp add: holds_entry_def)
    ultimately show ?thesis
      using True by (simp add: x y kk)
  next
    case False
    from Cons.hyps(1) have "holds_entry h' x y" by (rule assms(2))
    with False Cons.IH show ?thesis
      by (simp add: x y kk)
  qed
qed

lemma deref_append: "a < length h \<Longrightarrow> deref (h @ xs) a = deref h a"
  by (simp add: deref_def nth_append)

lemma randomize_selected_store_inv:
  assumes "deref h r = Some (DictObj d)" and "list_all2 (holds_entry h) d cat" and "N \<le> r"
    and "set sel \<subseteq> fst ` set cat"
  shows "\<exists>h' d' cat'. randomize_selected_store rs n sel r h = Inr h'
           \<and> take N h' = take N h
           \<and> randomize_selected rs n sel cat = Inr cat'
           \<and> deref h' r = Some (DictObj d') \<and> list_all2 (holds_entry h') d' cat'
           \<and> (\<forall>pid. pid \<notin> set sel \<longrightarrow> map_of d' pid = map_of d pid)"
  using assms
proof (induction sel arbitrary: n h d cat)
  case Nil
  then show ?case by simp
next
  case (Cons pid sel)
  from Cons.prems(4) have "pid \<in> fst ` set cat" by simp
  then obtain e where e: "map_of cat pid = Some e"
    by (metis domIff dom_map_of_conv_image_fst not_Some_eq)
  with holds_entry_map_of [OF Cons.prems(2), of pid] obtain a
    where a: "map_of d pid = Some a" and ha: "deref h a = Some (EntryObj e)"
    by (cases "map_of d pid") auto
  from Cons.prems(1) have r: "r < length h"
    by (simp add: deref_def split: if_splits)
  from ha have al: "a < length h"
    by (simp add: deref_def split: if_splits)
  let ?pd = "length h"
  let ?e2 = "e\<lparr>rotate_key := Some (random_rotation rs n), orient := None\<rparr>"
  let ?h1 = "((h @ [EntryObj e])[?pd := EntryObj (e\<lparr>rotate_key := Some (random_rotation rs n)\<rparr>)])
               [?pd := EntryObj ?e2]"
  let ?h2 = "?h1[r := DictObj (setitem d pid ?pd)]"
  have h2: "?h2 = (h[r := DictObj (setitem d pid ?pd)]) @ [EntryObj ?e2]"
    using r by (simp add: list_update_append)
  have step: "randomize_selected_store rs n (pid # sel) r h =
      randomize_selected_store rs (n + 3) sel r ?h2"
    using Cons.prems(1) a ha by (simp add: Let_def)
  have vstep: "randomize_selected rs n (pid # sel) cat =
      randomize_selected rs (n + 3) sel (setitem cat pid ?e2)"
    using e by simp
  have dr: "deref ?h2 r = Some (DictObj (setitem d pid ?pd))"
    using r by (simp add: deref_def nth_list_update nth_append)
  have dpd: "deref ?h2 ?pd = Some (EntryObj ?e2)"
    using r by (simp add: deref_def nth_list_update nth_append)
  have keep: "holds_entry ?h2 x y" if "holds_entry h x y" for x y
  proof -
    from that have "deref h (snd x) = Some (EntryObj (snd y))" and k: "fst y = fst x"
      by (simp_all add: holds_entry_def)
    then have "snd x < length h" and "snd x \<noteq> r" and "h ! snd x = EntryObj (snd y)"
      using Cons.prems(1) by (auto simp: deref_def split: if_splits)
    then have "deref ?h2 (snd x) = Some (EntryObj (snd y))"
      by (simp add: deref_def nth_list_update nth_append)
    with k show ?thesis by (simp add: holds_entry_def)
  qed
  have all2: "list_all2 (holds_entry ?h2) (setitem d pid ?pd) (setitem cat pid ?e2)"
    using Cons.prems(2) keep dpd by (rule holds_entry_setitem)
  have keys: "fst ` set (setitem cat pid ?e2) = fst ` set cat"
    using \<open>pid \<in> fst ` set cat\<close> map_fst_setitem [of pid cat ?e2]
    by (metis set_map)
  with Cons.prems(4) have sub: "set sel \<subseteq> fst ` set (setitem cat pid ?e2)" by simp
  from Cons.IH [OF dr all2 Cons.prems(3) sub, of "n + 3"] obtain h' d' cat'
    where run: "randomize_selected_store rs (n + 3) sel r ?h2 = Inr h'"
      and tk: "take N h' = take N ?h2"
      and vrun: "randomize_selected rs (n + 3) sel (setitem cat pid ?e2) = Inr cat'"
      and dr': "deref h' r = Some (DictObj d')" and all2': "list_all2 (holds_entry h') d' cat'"
      and others: "\<forall>p. p \<notin> set sel \<longrightarrow> map_of d' p = map_of (setitem d pid ?pd) p"
    by blast
  have "take N ?h2 = take N h"
    using Cons.prems(3) r by simp
  with tk have tk': "take N h' = take N h" by simp
  from others have others': "\<forall>p. p \<notin> set (pid # sel) \<longrightarrow> map_of d' p = map_of d p"
    by (simp add: map_of_setitem)
  from run vrun tk' dr' all2' others' show ?case
    unfolding step vstep by blast
qed

lemma holds_entry_keys: "list_all2 (holds_entry h) d cat \<Longrightarrow> map fst d = map fst cat"
  by (induction rule: list_all2_induct) (simp_all add: holds_entry_def)

lemma holds_entry_append:
  assumes "holds_entry h x y"
  shows "holds_entry (h @ xs) x y"
proof -
  from assms have "snd x < length h"
    by (simp add: holds_entry_def deref_def split: if_splits)
  with assms show ?thesis
    by (simp add: holds_entry_def deref_append)
qed

text \<open>
  C3. The store holds the dict \<^verbatim>\<open>product_data_dict\<close>, whose values are the addresses of the
  entry dicts; \<open>cat\<close> is what it holds. For a count that is not negative the call returns
  the address \<open>r\<close> of a dict that was not in the store before, and the store after the call
  begins with the store before it: no object of the input is changed. The new dict
  has the keys of the input. The selected ids \<open>sel\<close> are distinct ids of the input,
  \<open>min(count, |entries|)\<close> of them. The entry of the \<open>i\<close>-th selected id is the input's
  entry with its rotation replaced by the three angles of the \<open>i\<close>-th drawing, each in
  \<open>[-180, 180)\<close>, and without \<^verbatim>\<open>orient\<close>. Every other id is bound to the address it is
  bound to in the input, and so to the same entry.
\<close>

theorem randomize_product_rotations_store_spec:
  assumes "catalog_at h product_data_dict cat" and "distinct (map fst cat)"
    and "0 \<le> num_products"
  shows "\<exists>r h' items sel.
       randomize_product_rotations_store rs product_data_dict num_products h = Inr (r, h')
     \<and> take (length h) h' = h
     \<and> length h \<le> r
     \<and> catalog_at h' r items
     \<and> map fst items = map fst cat
     \<and> distinct sel \<and> set sel \<subseteq> set (map fst cat)
     \<and> int (length sel) = min num_products (int (length cat))
     \<and> (\<forall>i<length sel. \<exists>e x y z.
            map_of cat (sel ! i) = Some e
          \<and> map_of items (sel ! i) = Some (e\<lparr>rotate_key := Some (x, y, z), orient := None\<rparr>)
          \<and> random_rotation rs (3 * i) = (x, y, z)
          \<and> - 180 \<le> x \<and> x < 180 \<and> - 180 \<le> y \<and> y < 180 \<and> - 180 \<le> z \<and> z < 180)
     \<and> (\<forall>pid. pid \<notin> set sel \<longrightarrow>
            address_of h' r pid = address_of h product_data_dict pid
          \<and> map_of items pid = map_of cat pid)"
proof -
  from assms(1) obtain d
    where d: "deref h product_data_dict = Some (DictObj d)"
      and all2: "list_all2 (holds_entry h) d cat"
    by (auto simp: catalog_at_def)
  from all2 have keys: "map fst d = map fst cat" by (rule holds_entry_keys)
  let ?r = "length h"
  let ?h1 = "h @ [DictObj d]"
  have d1: "deref ?h1 ?r = Some (DictObj d)"
    by (simp add: deref_def)
  have all2_1: "list_all2 (holds_entry ?h1) d cat"
    using all2 by (rule list_all2_mono) (rule holds_entry_append)
  from randomize_product_rotations_content [OF assms(2,3), of rs] obtain sel items
    where sel: "sel = sample_from (pick rs) 0 (map fst cat)
                        (nat (min num_products (int (length cat))))"
      and props: "distinct sel" "set sel \<subseteq> set (map fst cat)"
        "int (length sel) = min num_products (int (length cat))"
      and vrun: "randomize_product_rotations rs cat num_products = Inr items"
      and ikeys: "map fst items = map fst cat"
      and varied: "\<forall>i<length sel. \<exists>e. map_of cat (sel ! i) = Some e
               \<and> map_of items (sel ! i) =
                   Some (e\<lparr>rotate_key := Some (random_rotation rs (3 * i)), orient := None\<rparr>)"
      and rest: "\<forall>pid. pid \<notin> set sel \<longrightarrow> map_of items pid = map_of cat pid"
    by blast
  from assms(3) have smp: "sample rs (map fst cat) (min num_products (int (length (map fst cat))))
      = Inr sel"
    by (simp add: sample_def sel)
  with vrun have vsel: "randomize_selected rs 0 sel cat = Inr items"
    by (simp add: randomize_product_rotations_def Let_def)
  from props(2) have sub: "set sel \<subseteq> fst ` set cat" by simp
  from randomize_selected_store_inv [OF d1 all2_1 order_refl sub, of rs 0] vsel obtain h' d'
    where run: "randomize_selected_store rs 0 sel ?r ?h1 = Inr h'"
      and tk: "take ?r h' = take ?r ?h1"
      and d': "deref h' ?r = Some (DictObj d')"
      and all2': "list_all2 (holds_entry h') d' items"
      and others: "\<forall>pid. pid \<notin> set sel \<longrightarrow> map_of d' pid = map_of d pid"
    by auto
  have whole: "randomize_product_rotations_store rs product_data_dict num_products h =
      Inr (?r, h')"
    using d smp run by (simp add: randomize_product_rotations_store_def Let_def keys)
  from tk have unchanged: "take ?r h' = h" by simp
  from d' all2' have at: "catalog_at h' ?r items"
    by (auto simp: catalog_at_def)
  have angles: "\<exists>e x y z.
            map_of cat (sel ! i) = Some e
          \<and> map_of items (sel ! i) = Some (e\<lparr>rotate_key := Some (x, y, z), orient := None\<rparr>)
          \<and> random_rotation rs (3 * i) = (x, y, z)
          \<and> - 180 \<le> x \<and> x < 180 \<and> - 180 \<le> y \<and> y < 180 \<and> - 180 \<le> z \<and> z < 180"
    if "i < length sel" for i
  proof -
    from varied that obtain e where e: "map_of cat (sel ! i) = Some e"
      "map_of items (sel ! i) =
         Some (e\<lparr>rotate_key := Some (random_rotation rs (3 * i)), orient := None\<rparr>)"
      by blast
    obtain x y z where xyz: "random_rotation rs (3 * i) = (x, y, z)"
      by (cases "random_rotation rs (3 * i)")
    from random_rotation_bounds [OF xyz] e xyz show ?thesis by simp
  qed
  have same: "address_of h' ?r pid = address_of h product_data_dict pid
          \<and> map_of items pid = map_of cat pid" if "pid \<notin> set sel" for pid
    using that others rest d d' by (simp add: address_of_def)
  from whole unchanged at ikeys props angles same show ?thesis
    by (intro exI [of _ ?r] exI [of _ h'] exI [of _ items] exI [of _ sel]) simp
qed

lemma catalog_at_store0: "catalog_at store0 0 catalog0"
  by (simp add: catalog_at_def store0_def catalog0_def deref_def holds_entry_def)

lemma randomize_store0:
  "randomize_product_rotations_store fixed_source 0 1 store0 =
     Inr (3, store0 @ [DictObj [(''A'', 4), (''B'', 2)],
                       EntryObj (both\<lparr>rotate_key := Some (- 180, - 180, - 180),
                                       orient := None\<rparr>)])"
  by (simp add: randomize_product_rotations_store_def store0_def deref_def sample_def
      fixed_source_def Let_def random_rotation_def uniform_def random_def)

theorem randomize_product_rotations_store_spec_witness:
  "catalog_at store0 0 catalog0 \<and> distinct (map fst catalog0) \<and> (0::int) \<le> 1
   \<and> (\<exists>r h' items.
          randomize_product_rotations_store fixed_source 0 1 store0 = Inr (r, h')
        \<and> take (length store0) h' = store0
        \<and> length store0 \<le> r
        \<and> catalog_at h' r items
        \<and> map fst items = map fst catalog0)"
proof -
  have d: "distinct (map fst catalog0)"
    by (simp add: catalog0_def)
  have k: "(0::int) \<le> 1" by simp
  from randomize_product_rotations_store_spec [OF catalog_at_store0 d k, of fixed_source]
  obtain r h' items
    where "randomize_product_rotations_store fixed_source 0 1 store0 = Inr (r, h')"
      and "take (length store0) h' = store0"
      and "length store0 \<le> r"
      and "catalog_at h' r items"
      and "map fst items = map fst catalog0"
    by (elim exE conjE)
  then have "\<exists>r h' items.
          randomize_product_rotations_store fixed_source 0 1 store0 = Inr (r, h')
        \<and> take (length store0) h' = store0
        \<and> length store0 \<le> r
        \<and> catalog_at h' r items
        \<and> map fst items = map fst catalog0"
    by (intro exI [of _ r] exI [of _ h'] exI [of _ items] conjI)
  with catalog_at_store0 d k show ?thesis by (intro conjI)
qed

section \<open>Running the setup twice\<close>

lemma place_product_ops_shape_again:
  assumes "same_placement e1 e2"
  shows "shape (snd (place_product_ops e2 (snd (place_product_ops e1 pr)))) =
         shape (snd (place_product_ops e2 pr))"
proof (cases "asset e1")
  case None
  with assms have "asset e2 = None" by (simp add: same_placement_def)
  with None show ?thesis by (simp add: place_product_ops_def)
next
  case (Some a)
  with assms have a2: "asset e2 = Some a" by (simp add: same_placement_def)
  have pay: "payloads (snd (place_product_ops e pr')) = filter (\<lambda>x. x \<noteq> a) (payloads pr') @ [a]"
    and ty: "typeName (snd (place_product_ops e pr')) = typeName pr'"
    and refs: "references (snd (place_product_ops e pr')) = references pr'"
    if "asset e = Some a" for e pr'
    using that
    by (auto simp: place_product_ops_def usd_defs Let_def split: option.splits prod.splits)
  have ord: "xformOpOrder (snd (place_product_ops e pr')) =
      xformOpOrder (snd (place_product_ops e pr''))"
    if "asset e = Some a" for e pr' pr''
    using that
    by (auto simp: place_product_ops_def usd_defs Let_def split: option.splits prod.splits)
  show ?thesis
    using Some a2 ord [of e2 "snd (place_product_ops e1 pr)" pr]
    by (simp add: shape_def pay ty refs)
qed

lemma product_path_length: "length (product_path pid e) = 5"
  by (simp add: product_path_def shelf_path_def)

lemma place_product_pointwise:
  "snd (place_product st pid e) q =
     (if q = product_path pid e
      then Some (snd (place_product_ops e (defined_prim st q [])))
      else if q \<noteq> [] \<and> strict_prefix q (product_path pid e) \<and> st q = None
           then Some (new_prim []) else st q)"
  by (simp add: place_product_def Let_def split_beta DefinePrim_def)

lemma strict_prefix_length: "strict_prefix q p \<Longrightarrow> length q < length p"
  by (metis prefix_length_less)

lemma path_entries_Cons:
  "path_entries ((pid, e) # items) = (product_path pid e, e) # path_entries items"
  by (simp add: path_entries_def)

lemma path_entries_paths:
  "p \<in> fst ` set (path_entries items) \<Longrightarrow> length p = 5"
  by (auto simp: path_entries_def product_path_length)

lemma map_of_path_entries_None:
  assumes "pid \<notin> fst ` set items"
  shows "map_of (path_entries items) (product_path pid e) = None"
proof -
  have "product_path pid e \<notin> fst ` set (path_entries items)"
    using assms by (force simp: path_entries_def dest: product_path_inj)
  then show ?thesis by (simp add: map_of_eq_None_iff)
qed

lemma place_stage_pointwise:
  assumes "distinct (map fst items)"
  shows "place_stage items st q =
     (case map_of (path_entries items) q of
        Some e \<Rightarrow> Some (snd (place_product_ops e (defined_prim st q [])))
      | None \<Rightarrow>
          if q \<noteq> [] \<and> (\<exists>p\<in>fst ` set (path_entries items). strict_prefix q p) \<and> st q = None
          then Some (new_prim []) else st q)"
  using assms
proof (induction items arbitrary: st)
  case Nil
  show ?case by (simp add: place_stage_def path_entries_def)
next
  case (Cons x items)
  obtain pid e where x: "x = (pid, e)" by (cases x)
  let ?p = "product_path pid e"
  let ?s1 = "snd (place_product st pid e)"
  from Cons.prems x have notin: "pid \<notin> fst ` set items" and dist: "distinct (map fst items)"
    by simp_all
  have step: "place_stage ((pid, e) # items) st = place_stage items ?s1"
    by (simp add: place_stage_def)
  note IH = Cons.IH [OF dist, of ?s1]
  have main: "place_stage ((pid, e) # items) st q =
     (case map_of (path_entries ((pid, e) # items)) q of
        Some e \<Rightarrow> Some (snd (place_product_ops e (defined_prim st q [])))
      | None \<Rightarrow>
          if q \<noteq> [] \<and> (\<exists>p\<in>fst ` set (path_entries ((pid, e) # items)). strict_prefix q p)
             \<and> st q = None
          then Some (new_prim []) else st q)"
  proof (cases "q = ?p")
    case True
    have none: "map_of (path_entries items) ?p = None"
      using notin by (rule map_of_path_entries_None)
    have "?s1 ?p = Some (snd (place_product_ops e (defined_prim st ?p [])))"
      by (simp add: place_product_pointwise)
    with True none show ?thesis
      unfolding step IH path_entries_Cons by simp
  next
    case False
    show ?thesis
    proof (cases "map_of (path_entries items) q")
      case (Some e')
      then have "q \<in> fst ` set (path_entries items)"
        by (metis domI dom_map_of_conv_image_fst)
      then have len: "length q = 5" by (rule path_entries_paths)
      have "\<not> strict_prefix q ?p"
      proof
        assume "strict_prefix q ?p"
        then have "length q < length ?p" by (rule strict_prefix_length)
        with len show False by (simp add: product_path_length)
      qed
      with False have "?s1 q = st q"
        by (simp add: place_product_pointwise)
      then have "defined_prim ?s1 q [] = defined_prim st q []"
        by (simp add: defined_prim_def)
      with False Some show ?thesis
        unfolding step IH path_entries_Cons by simp
    next
      case None
      have s1: "?s1 q = (if q \<noteq> [] \<and> strict_prefix q ?p \<and> st q = None
                         then Some (new_prim []) else st q)"
        using False by (simp add: place_product_pointwise)
      from False None show ?thesis
        unfolding step IH path_entries_Cons s1 by auto
    qed
  qed
  show ?case
    unfolding x by (rule main)
qed

lemma same_placement_path:
  "same_placement e1 e2 \<Longrightarrow> product_path pid e2 = product_path pid e1"
  by (simp add: product_path_def get_shelf_def get_category_def same_placement_def)

lemma same_items_path_entries:
  assumes "same_items items1 items2"
  shows "map fst (path_entries items2) = map fst (path_entries items1)
       \<and> (case map_of (path_entries items2) q of
            None \<Rightarrow> map_of (path_entries items1) q = None
          | Some e2 \<Rightarrow> \<exists>e1. map_of (path_entries items1) q = Some e1 \<and> same_placement e1 e2)"
proof -
  from assms have "list_all2 (\<lambda>a b. fst b = fst a \<and> same_placement (snd a) (snd b))
      items1 items2"
    by (simp add: same_items_def)
  then show ?thesis
  proof (induction rule: list_all2_induct)
    case Nil
    show ?case by (simp add: path_entries_def)
  next
    case (Cons x xs y ys)
    obtain pid e1 where x: "x = (pid, e1)" by (cases x)
    with Cons.hyps(1) obtain e2 where y: "y = (pid, e2)" and sp: "same_placement e1 e2"
      by (cases y) auto
    from sp have p: "product_path pid e2 = product_path pid e1"
      by (rule same_placement_path)
    from Cons.IH sp show ?case
      unfolding x y path_entries_Cons p by (auto split: option.splits)
  qed
qed

lemma place_stage_twice:
  assumes "distinct (map fst items1)" and "same_items items1 items2"
  shows "map_option shape (place_stage items2 (place_stage items1 st) q) =
         map_option shape (place_stage items2 st q)"
proof -
  from assms(2) have keys: "map fst items2 = map fst items1"
    unfolding same_items_def
    by (induction rule: list_all2_induct) simp_all
  with assms(1) have d2: "distinct (map fst items2)" by simp
  let ?S1 = "place_stage items1 st"
  have anc: "fst ` set (path_entries items2) = fst ` set (path_entries items1)"
    using same_items_path_entries [OF assms(2)] by (metis set_map)
  note S1 = place_stage_pointwise [OF assms(1), of st q]
  show ?thesis
  proof (cases "map_of (path_entries items2) q")
    case (Some e2)
    with same_items_path_entries [OF assms(2), of q] obtain e1
      where e1: "map_of (path_entries items1) q = Some e1" and sp: "same_placement e1 e2"
      by auto
    from e1 have "?S1 q = Some (snd (place_product_ops e1 (defined_prim st q [])))"
      by (simp add: S1)
    then have "defined_prim ?S1 q [] = snd (place_product_ops e1 (defined_prim st q []))"
      by (simp add: defined_prim_def)
    with Some sp show ?thesis
      by (simp add: place_stage_pointwise [OF d2] place_product_ops_shape_again)
  next
    case None
    with same_items_path_entries [OF assms(2), of q]
    have n1: "map_of (path_entries items1) q = None" by simp
    from S1 n1 have S1q: "?S1 q =
        (if q \<noteq> [] \<and> (\<exists>p\<in>fst ` set (path_entries items1). strict_prefix q p) \<and> st q = None
         then Some (new_prim []) else st q)"
      by simp
    show ?thesis
      unfolding place_stage_pointwise [OF d2] None S1q anc by auto
  qed
qed

lemma set_typeName_same: "typeName pr = ty \<Longrightarrow> pr\<lparr>typeName := ty\<rparr> = pr"
  by simp

lemma create_product_hierarchy_built:
  assumes "hierarchy_built cat st"
  shows "create_product_hierarchy cat st = (Returned True, [], st)"
proof -
  from assms obtain shelf_prim where sp: "st shelf_path = Some shelf_prim"
    by (auto simp: hierarchy_built_def)
  from create_product_hierarchy_at [of st shelf_prim cat] sp obtain st'
    where run: "create_product_hierarchy cat st = (Returned True, [], st')"
      and at: "\<And>q. st' q =
          (if q \<in> catalog_group_paths cat
           then Some (case st q of None \<Rightarrow> new_prim ''Scope''
                      | Some pr \<Rightarrow> pr\<lparr>typeName := ''Scope''\<rparr>)
           else if q \<noteq> [] \<and> (\<exists>p\<in>catalog_group_paths cat. strict_prefix q p) \<and> st q = None
                then Some (new_prim []) else st q)"
    by blast
  have "st' q = st q" for q
  proof (cases "q \<in> catalog_group_paths cat")
    case True
    with assms obtain pr where "st q = Some pr" "typeName pr = ''Scope''"
      by (auto simp: hierarchy_built_def)
    with True show ?thesis by (simp add: at)
  next
    case False
    with assms show ?thesis
      unfolding at hierarchy_built_def by auto
  qed
  then have "st' = st" by (rule ext)
  with run show ?thesis by simp
qed

lemma hierarchy_built_after:
  assumes "st shelf_path = Some shelf_prim"
    and "create_product_hierarchy cat st = (r, out, st')"
  shows "hierarchy_built cat st' \<and> st' shelf_path = st shelf_path"
proof -
  from create_product_hierarchy_at [of st shelf_prim cat] assms
  have at: "\<And>q. st' q =
          (if q \<in> catalog_group_paths cat
           then Some (case st q of None \<Rightarrow> new_prim ''Scope''
                      | Some pr \<Rightarrow> pr\<lparr>typeName := ''Scope''\<rparr>)
           else if q \<noteq> [] \<and> (\<exists>p\<in>catalog_group_paths cat. strict_prefix q p) \<and> st q = None
                then Some (new_prim []) else st q)"
    by auto
  have notg: "shelf_path \<notin> catalog_group_paths cat"
    by (auto simp: catalog_group_paths_def)
  have shelf: "st' shelf_path = st shelf_path"
    using assms(1) notg by (simp add: at)
  have g: "\<exists>pr. st' q = Some pr \<and> typeName pr = ''Scope''" if "q \<in> catalog_group_paths cat" for q
    using that by (simp add: at new_prim_def split: option.splits)
  have anc: "st' q \<noteq> None" if "q \<noteq> []" "\<exists>p\<in>catalog_group_paths cat. strict_prefix q p" for q
    using that by (simp add: at)
  from shelf assms(1) g anc show ?thesis
    by (simp add: hierarchy_built_def)
qed

lemma group_path_length:
  "q \<in> catalog_group_paths cat \<Longrightarrow> length q = 3 \<or> length q = 4"
  by (auto simp: catalog_group_paths_def shelf_path_def)

lemma place_stage_keeps:
  assumes "length q \<noteq> 5" and "st q = Some pr"
  shows "place_stage items st q = Some pr"
proof -
  have "\<forall>(pid, e)\<in>set items. product_path pid e \<noteq> q"
    using assms(1) by (auto simp: product_path_length)
  then show ?thesis using assms(2) by (rule place_stage_other)
qed

lemma hierarchy_built_place_stage:
  assumes "hierarchy_built cat st"
  shows "hierarchy_built cat (place_stage items st)
       \<and> place_stage items st shelf_path = st shelf_path"
proof -
  let ?S = "place_stage items st"
  from assms obtain sp where sp: "st shelf_path = Some sp"
    by (auto simp: hierarchy_built_def)
  have shelf: "?S shelf_path = st shelf_path"
    using sp by (simp add: place_stage_keeps shelf_path_def)
  have g: "\<exists>pr. ?S q = Some pr \<and> typeName pr = ''Scope''" if "q \<in> catalog_group_paths cat" for q
  proof -
    from assms that obtain pr where pr: "st q = Some pr" "typeName pr = ''Scope''"
      by (auto simp: hierarchy_built_def)
    from group_path_length [OF that] have "length q \<noteq> 5" by auto
    with pr show ?thesis by (simp add: place_stage_keeps)
  qed
  have anc: "?S q \<noteq> None" if "q \<noteq> []" and ex: "\<exists>p\<in>catalog_group_paths cat. strict_prefix q p"
    for q
  proof -
    from assms that obtain pr where pr: "st q = Some pr"
      by (auto simp: hierarchy_built_def)
    from ex obtain p where "p \<in> catalog_group_paths cat" "strict_prefix q p" by blast
    with group_path_length [of p cat] strict_prefix_length [of q p] have "length q \<noteq> 5"
      by auto
    with pr show ?thesis by (simp add: place_stage_keeps)
  qed
  from shelf sp g anc show ?thesis
    by (simp add: hierarchy_built_def)
qed

lemma shelf_after_references: "references (shelf_after cfg pr) = [shelf_reference]"
proof -
  let ?pr0 = "AddReference shelf_reference (ClearReferences pr)"
  have "references ?pr0 = [shelf_reference]"
    by (simp add: AddReference_def ClearReferences_def)
  with shelf_world_xform_ops_result [of cfg ?pr0] show ?thesis
    by (auto simp: shelf_after_def Let_def)
qed

lemma shelf_after_idem: "shelf_after cfg (shelf_after cfg pr) = shelf_after cfg pr"
proof (cases "APPLY_SHELF_WORLD_XFORM cfg")
  case True
  let ?pr0 = "AddReference shelf_reference (ClearReferences pr)"
  obtain r p where rp: "shelf_world_xform_ops cfg ?pr0 = (r, p)"
    by (cases "shelf_world_xform_ops cfg ?pr0")
  have "references ?pr0 = [shelf_reference]"
    by (simp add: AddReference_def ClearReferences_def)
  with rp have "shelf_world_xform_ops cfg (AddReference shelf_reference (ClearReferences p))
      = (None, p)"
    by (rule shelf_world_xform_ops_again)
  with True rp show ?thesis
    by (simp add: shelf_after_def Let_def)
next
  case False
  then show ?thesis
    by (simp add: shelf_after_def Let_def AddReference_def ClearReferences_def)
qed

lemma add_shelf_shelf_after:
  "add_shelf_to_existing_stage cfg (Some st) =
     (Returned True, [],
      Some ((case st shelf_path of
               None \<Rightarrow> DefinePrim st shelf_path ''Xform'' | Some pr \<Rightarrow> st)
            (shelf_path \<mapsto>
               shelf_after cfg (case st shelf_path of
                                  None \<Rightarrow> new_prim ''Xform'' | Some pr \<Rightarrow> pr))))"
  by (simp add: add_shelf_Some shelf_after_def Let_def)

lemma add_shelf_fixed:
  assumes "add_shelf_to_existing_stage cfg (Some st) = (r, out, Some A)"
    and "S shelf_path = A shelf_path"
  shows "add_shelf_to_existing_stage cfg (Some S) = (Returned True, [], Some S)"
proof -
  let ?pr = "shelf_after cfg (case st shelf_path of
                                  None \<Rightarrow> new_prim ''Xform'' | Some pr \<Rightarrow> pr)"
  from assms(1) have "A shelf_path = Some ?pr"
    by (auto simp: add_shelf_shelf_after)
  with assms(2) have S: "S shelf_path = Some ?pr" by simp
  then have "S(shelf_path \<mapsto> shelf_after cfg ?pr) = S"
    by (simp add: shelf_after_idem fun_upd_idem)
  with S show ?thesis
    by (simp add: add_shelf_shelf_after)
qed

lemma setup_after_attach_and_build:
  assumes "attach_base cfg opened ctx = (Returned True, [], Some A)"
    and "create_product_hierarchy cat A = (Returned True, [], H)"
    and "randomize_product_rotations rs cat 3 = Inr items"
  shows "setup_scene_sync cfg opened rs cat ctx =
     (Returned (0 < placed_count items),
      failures items @ [Placed (placed_count items) (length items)],
      Some (place_stage items H))"
  using assms
  by (cases "0 < placed_count items")
     (simp_all add: setup_scene_sync_def place_all_products_def place_each_result)

lemma setup_new_stage_any_context:
  assumes "\<not> use_current_scene cfg" and "opened = Some st"
  shows "setup_scene_sync cfg opened rs cat c = setup_scene_sync cfg opened rs cat c'"
  using assms
  by (simp add: setup_scene_sync_def attach_base_def load_empty_shop_sync_def)

lemma same_structure_refl: "same_structure a a"
  by (simp add: same_structure_def)

lemma setup_twice_attach:
  assumes "distinct (map fst cat)" and "use_current_scene cfg"
  shows "\<exists>r1 out1 S1 r out S2 S.
      setup_scene_sync cfg opened rs1 cat (Some st) = (r1, out1, Some S1)
    \<and> setup_scene_sync cfg opened rs2 cat (Some S1) = (r, out, Some S2)
    \<and> setup_scene_sync cfg opened rs2 cat (Some st) = (r, out, Some S)
    \<and> scene_structure S2 = scene_structure S
    \<and> (\<exists>pr. S2 shelf_path = Some pr \<and> references pr = [shelf_reference])"
proof -
  obtain A where A: "add_shelf_to_existing_stage cfg (Some st) = (Returned True, [], Some A)"
    and Ash: "\<exists>pr. A shelf_path = Some pr \<and> references pr = [shelf_reference]"
    by (simp add: add_shelf_shelf_after shelf_after_references)
  from Ash obtain shelf_prim where sp: "A shelf_path = Some shelf_prim" by blast
  obtain H where H: "create_product_hierarchy cat A = (Returned True, [], H)"
    using create_product_hierarchy_at [of A shelf_prim cat] sp by blast
  from hierarchy_built_after [OF sp H]
  have Hb: "hierarchy_built cat H" and Hsh: "H shelf_path = A shelf_path" by simp_all
  from randomize_product_rotations_ok [of 3 rs1 cat] obtain items1
    where r1: "randomize_product_rotations rs1 cat 3 = Inr items1"
      and s1: "same_items cat items1" and k1: "map fst items1 = map fst cat"
    by auto
  from randomize_product_rotations_ok [of 3 rs2 cat] obtain items2
    where r2: "randomize_product_rotations rs2 cat 3 = Inr items2"
      and s2: "same_items cat items2" and k2: "map fst items2 = map fst cat"
    by auto
  let ?S1 = "place_stage items1 H"
  from assms(2) A have att: "attach_base cfg opened (Some st) = (Returned True, [], Some A)"
    by (simp add: attach_base_def)
  note run1 = setup_after_attach_and_build [OF att H r1]
  note single = setup_after_attach_and_build [OF att H r2]
  from hierarchy_built_place_stage [OF Hb, of items1]
  have S1b: "hierarchy_built cat ?S1" and S1sh: "?S1 shelf_path = H shelf_path" by simp_all
  from S1sh Hsh have "?S1 shelf_path = A shelf_path" by simp
  with A have "add_shelf_to_existing_stage cfg (Some ?S1) = (Returned True, [], Some ?S1)"
    by (rule add_shelf_fixed)
  with assms(2) have att2: "attach_base cfg opened (Some ?S1) = (Returned True, [], Some ?S1)"
    by (simp add: attach_base_def)
  from S1b have H2: "create_product_hierarchy cat ?S1 = (Returned True, [], ?S1)"
    by (rule create_product_hierarchy_built)
  note run2 = setup_after_attach_and_build [OF att2 H2 r2]
  have s12: "same_items items1 items2"
  proof -
    have "same_items items1 cat"
      using s1 unfolding same_items_def
      by (induction rule: list_all2_induct) (simp_all add: same_placement_def)
    then show ?thesis using s2 by (rule same_items_trans)
  qed
  from assms(1) k1 have d1: "distinct (map fst items1)" by simp
  have "scene_structure (place_stage items2 ?S1) q = scene_structure (place_stage items2 H) q"
    for q
    unfolding scene_structure_def using d1 s12 by (rule place_stage_twice)
  then have eq: "scene_structure (place_stage items2 ?S1) = scene_structure (place_stage items2 H)"
    by (rule ext)
  from hierarchy_built_place_stage [OF S1b, of items2] S1sh Hsh Ash
  have anchor: "\<exists>pr. place_stage items2 ?S1 shelf_path = Some pr
      \<and> references pr = [shelf_reference]"
    by simp
  from run1 run2 single eq anchor show ?thesis by blast
qed

text \<open>
  C2. The structure of a stage gives, for every path, the type name, the reference list,
  the payload list and the op order of the prim there; the values that attributes hold are
  not part of it, since the two runs draw different angles. Run the setup with the random
  outcomes \<open>rs1\<close>, then run it again, with the outcomes \<open>rs2\<close>, on what the first run
  left: the second run returns and prints what one run with \<open>rs2\<close> does on the original
  context, and leaves a stage of the same structure. No list has grown: in particular,
  when the shelf is added to the open stage, its prim holds the one shelf reference after
  the second run.
\<close>

theorem setup_scene_sync_twice:
  assumes "distinct (map fst cat)"
  shows "\<exists>r1 out1 ctx1 r out ctx2 ctx'.
      setup_scene_sync cfg opened rs1 cat ctx = (r1, out1, ctx1)
    \<and> setup_scene_sync cfg opened rs2 cat ctx1 = (r, out, ctx2)
    \<and> setup_scene_sync cfg opened rs2 cat ctx = (r, out, ctx')
    \<and> same_structure ctx2 ctx'
    \<and> (use_current_scene cfg \<longrightarrow>
         (\<forall>S2. ctx2 = Some S2 \<longrightarrow>
            (\<exists>pr. S2 shelf_path = Some pr \<and> references pr = [shelf_reference])))"
proof (cases "use_current_scene cfg")
  case True
  show ?thesis
  proof (cases ctx)
    case None
    have "setup_scene_sync cfg opened rs cat None = (Returned False, [NoStageOpen], None)" for rs
      using True
      by (simp add: setup_scene_sync_def attach_base_def add_shelf_to_existing_stage_def)
    with None show ?thesis
      by (simp add: same_structure_refl)
  next
    case (Some st)
    from setup_twice_attach [OF assms True, of opened rs1 st rs2] obtain r1 out1 S1 r out S2 S
      where "setup_scene_sync cfg opened rs1 cat (Some st) = (r1, out1, Some S1)"
        and "setup_scene_sync cfg opened rs2 cat (Some S1) = (r, out, Some S2)"
        and "setup_scene_sync cfg opened rs2 cat (Some st) = (r, out, Some S)"
        and "scene_structure S2 = scene_structure S"
        and "\<exists>pr. S2 shelf_path = Some pr \<and> references pr = [shelf_reference]"
      by blast
    with Some show ?thesis
      by (simp add: same_structure_def)
  qed
next
  case False
  obtain r1 out1 ctx1 where run1: "setup_scene_sync cfg opened rs1 cat ctx = (r1, out1, ctx1)"
    by (cases "setup_scene_sync cfg opened rs1 cat ctx") auto
  obtain r out ctx' where single: "setup_scene_sync cfg opened rs2 cat ctx = (r, out, ctx')"
    by (cases "setup_scene_sync cfg opened rs2 cat ctx") auto
  have "setup_scene_sync cfg opened rs2 cat ctx1 = setup_scene_sync cfg opened rs2 cat ctx"
  proof (cases opened)
    case None
    with False run1 have "ctx1 = ctx"
      by (simp add: setup_scene_sync_def attach_base_def load_empty_shop_sync_def)
    then show ?thesis by simp
  next
    case (Some st)
    with False show ?thesis by (rule setup_new_stage_any_context)
  qed
  with single have "setup_scene_sync cfg opened rs2 cat ctx1 = (r, out, ctx')" by simp
  with run1 single False show ?thesis
    by (simp add: same_structure_refl)
qed

theorem setup_scene_sync_twice_witness:
  "distinct (map fst four_items) \<and> use_current_scene override_cfg
   \<and> (\<exists>r1 out1 ctx1 r out S2 ctx'.
      setup_scene_sync override_cfg None fixed_source four_items (Some Map.empty)
        = (r1, out1, ctx1)
    \<and> setup_scene_sync override_cfg None other_source four_items ctx1 = (r, out, Some S2)
    \<and> setup_scene_sync override_cfg None other_source four_items (Some Map.empty)
        = (r, out, ctx')
    \<and> same_structure (Some S2) ctx'
    \<and> (\<exists>pr. S2 shelf_path = Some pr \<and> references pr = [shelf_reference]))"
proof -
  have d: "distinct (map fst four_items)"
    by (simp add: four_items_def)
  have u: "use_current_scene override_cfg"
    by (simp add: override_cfg_def)
  from setup_scene_sync_twice
         [OF d, of override_cfg None fixed_source "Some Map.empty" other_source]
  obtain r1 out1 ctx1 r out ctx2 ctx'
    where run1: "setup_scene_sync override_cfg None fixed_source four_items (Some Map.empty)
        = (r1, out1, ctx1)"
      and run2: "setup_scene_sync override_cfg None other_source four_items ctx1
        = (r, out, ctx2)"
      and single: "setup_scene_sync override_cfg None other_source four_items (Some Map.empty)
        = (r, out, ctx')"
      and same: "same_structure ctx2 ctx'"
      and anchor: "use_current_scene override_cfg \<longrightarrow>
         (\<forall>S2. ctx2 = Some S2 \<longrightarrow>
            (\<exists>pr. S2 shelf_path = Some pr \<and> references pr = [shelf_reference]))"
    by blast
  from single u have "ctx' \<noteq> None"
    by (auto simp: setup_scene_sync_def attach_base_def add_shelf_shelf_after
        split: prod.splits ret.splits bool.splits option.splits)
  with same obtain S2 where S2: "ctx2 = Some S2"
    by (cases ctx2) (auto simp: same_structure_def)
  with anchor u have "\<exists>pr. S2 shelf_path = Some pr \<and> references pr = [shelf_reference]"
    by blast
  with run1 run2 single same S2 have "\<exists>r1 out1 ctx1 r out S2 ctx'.
      setup_scene_sync override_cfg None fixed_source four_items (Some Map.empty)
        = (r1, out1, ctx1)
    \<and> setup_scene_sync override_cfg None other_source four_items ctx1 = (r, out, Some S2)
    \<and> setup_scene_sync override_cfg None other_source four_items (Some Map.empty)
        = (r, out, ctx')
    \<and> same_structure (Some S2) ctx'
    \<and> (\<exists>pr. S2 shelf_path = Some pr \<and> references pr = [shelf_reference])"
    by blast
  with d u show ?thesis by (intro conjI)
qed

end
